theory Spec2Isabelle
  imports Main "HOL-Library.Char_ord" "HOL-Library.List_Lexorder"
begin

section \<open>Python primitives used by \<open>verify_torrent.py\<close>\<close>

text \<open>
  A Python \<open>bytes\<close> object is a \<^typ>\<open>string\<close>: a list of 8-bit characters.  Cursor
  positions are Python integers, so they are \<^typ>\<open>int\<close>, and indexing, slicing and
  \<open>bytes.find\<close> follow Python's treatment of negative and out-of-range positions.
  Integers are unbounded; neither the interpreter's recursion limit nor its limit on the
  number of digits converted between \<open>int\<close> and \<open>str\<close> is part of the model.
\<close>

datatype verr =
    InvalidString
  | LengthOutOfRange
  | InvalidInteger
  | UnexpectedEnd
  | InvalidMarker char
  | InvalidLiteral

datatype exn =
    ValueError verr
  | IndexError
  | TypeError
  | KeyError
  | AttributeError
  | OSError

definition py_index :: "string \<Rightarrow> int \<Rightarrow> exn + char" where
  "py_index x i =
     (let n = int (length x); j = (if i < 0 then i + n else i)
      in if 0 \<le> j \<and> j < n then Inr (x ! nat j) else Inl IndexError)"

definition clamp_pos :: "nat \<Rightarrow> int \<Rightarrow> nat" where
  "clamp_pos n i = (if i < 0 then nat (max (i + int n) 0) else min (nat i) n)"

definition py_slice :: "string \<Rightarrow> int \<Rightarrow> int \<Rightarrow> string" where
  "py_slice x a b =
     (let lo = clamp_pos (length x) a; hi = clamp_pos (length x) b
      in take (hi - lo) (drop lo x))"

fun index_of :: "char \<Rightarrow> string \<Rightarrow> nat option" where
  "index_of c [] = None"
| "index_of c (y # ys) = (if y = c then Some 0 else map_option Suc (index_of c ys))"

definition py_find :: "string \<Rightarrow> char \<Rightarrow> int \<Rightarrow> int" where
  "py_find x c i =
     (let n = int (length x); s = (if i < 0 then max (i + n) 0 else i)
      in if s > n then - 1
         else (case index_of c (drop (nat s) x) of
                 None \<Rightarrow> - 1
               | Some k \<Rightarrow> s + int k))"

subsection \<open>\<open>int(bytes)\<close> and \<open>str(int)\<close>\<close>

definition is_space :: "char \<Rightarrow> bool" where
  "is_space c = ((9::nat) \<le> of_char c \<and> (of_char c::nat) \<le> 13 \<or> (of_char c::nat) = 32)"

definition is_digit :: "char \<Rightarrow> bool" where
  "is_digit c = ((48::nat) \<le> of_char c \<and> (of_char c::nat) \<le> 57)"

definition digit_or_us :: "char \<Rightarrow> bool" where
  "digit_or_us c = (is_digit c \<or> c = CHR ''_'')"

fun double_us :: "string \<Rightarrow> bool" where
  "double_us (a # b # cs) = (a = CHR ''_'' \<and> b = CHR ''_'' \<or> double_us (b # cs))"
| "double_us _ = False"

definition digits_value :: "string \<Rightarrow> nat" where
  "digits_value ds = foldl (\<lambda>a c. 10 * a + (of_char c - 48)) 0 (filter is_digit ds)"

text \<open>
  \<open>int(b)\<close> for a bytes object, base 10: optional surrounding ASCII whitespace, an optional
  sign, then decimal digits that may be separated by single underscores.  A NUL byte, an
  empty digit string or anything else raises \<open>ValueError\<close> (here \<open>None\<close>).  Leading zeros
  and \<open>-0\<close> are accepted.
\<close>

definition py_int :: "string \<Rightarrow> int option" where
  "py_int s =
     (if CHR 0x00 \<in> set s then None
      else
        let s1 = dropWhile is_space s;
            neg = (s1 \<noteq> [] \<and> hd s1 = CHR ''-'');
            s2 = (if s1 \<noteq> [] \<and> (hd s1 = CHR ''+'' \<or> hd s1 = CHR ''-'') then tl s1 else s1);
            body = takeWhile digit_or_us s2;
            rest = dropWhile digit_or_us s2
        in if body = [] \<or> hd body = CHR ''_'' \<or> last body = CHR ''_'' \<or> double_us body
              \<or> \<not> list_all is_space rest
           then None
           else Some (if neg then - int (digits_value body) else int (digits_value body)))"

definition digit_char :: "nat \<Rightarrow> char" where
  "digit_char d = char_of (48 + d)"

fun str_nat :: "nat \<Rightarrow> string" where
  "str_nat n = (if n < 10 then [digit_char n] else str_nat (n div 10) @ [digit_char (n mod 10)])"

declare str_nat.simps [simp del]

definition py_str :: "int \<Rightarrow> string" where
  "py_str i = (if i < 0 then CHR ''-'' # str_nat (nat (- i)) else str_nat (nat i))"

section \<open>The fallback bencode codec\<close>

text \<open>
  The value tree built by the decoder.  A Python \<open>dict\<close> keeps insertion order and has
  unique keys, so it is an association list; \<open>dict_set\<close> is \<open>result[key] = val\<close>.
  The decoder is only ever called with \<open>decode_strings=False\<close>, so byte strings stay bytes.
\<close>

datatype bvalue =
    BInt int
  | BStr string
  | BList "bvalue list"
  | BDict "(string \<times> bvalue) list"

fun dict_set :: "(string \<times> bvalue) list \<Rightarrow> string \<Rightarrow> bvalue \<Rightarrow> (string \<times> bvalue) list" where
  "dict_set [] k v = [(k, v)]"
| "dict_set (p # ps) k v = (if fst p = k then (k, v) # ps else p # dict_set ps k v)"

definition decode_string :: "string \<Rightarrow> int \<Rightarrow> exn + string \<times> int" where
  "decode_string x i =
     (let colon = py_find x CHR '':'' i
      in if colon = - 1 then Inl (ValueError InvalidString)
         else (case py_int (py_slice x i colon) of
                 None \<Rightarrow> Inl (ValueError InvalidLiteral)
               | Some len \<Rightarrow>
                   let start = colon + 1; end = start + len
                   in if end > int (length x) then Inl (ValueError LengthOutOfRange)
                      else Inr (py_slice x start end, end)))"

definition decode_int :: "string \<Rightarrow> int \<Rightarrow> exn + bvalue \<times> int" where
  "decode_int x i0 =
     (let i = i0 + 1; end = py_find x CHR ''e'' i
      in if end = - 1 then Inl (ValueError InvalidInteger)
         else (case py_int (py_slice x i end) of
                 None \<Rightarrow> Inl (ValueError InvalidLiteral)
               | Some n \<Rightarrow> Inr (BInt n, end + 1)))"

text \<open>
  \<open>decode\<close>, \<open>decode_list\<close> and \<open>decode_dict\<close> are mutually recursive and their loops need
  not terminate (a dictionary key with a negative length prefix moves the cursor
  backwards), so they are one partial function over a task: \<open>None\<close> means that the call
  does not return.  \<open>ListLoop i acc\<close> and \<open>DictLoop i acc\<close> are the \<open>while\<close> loops of
  \<open>decode_list\<close> and \<open>decode_dict\<close> at cursor \<open>i\<close> with the result built so far.
\<close>

datatype task =
    Decode int
  | ListLoop int "bvalue list"
  | DictLoop int "(string \<times> bvalue) list"

partial_function (option) run :: "string \<Rightarrow> task \<Rightarrow> (exn + bvalue \<times> int) option" where
  "run x t =
     (case t of
        Decode i \<Rightarrow>
          if i \<ge> int (length x) then Some (Inl (ValueError UnexpectedEnd))
          else (case py_index x i of
                  Inl e \<Rightarrow> Some (Inl e)
                | Inr c \<Rightarrow>
                    if c = CHR ''d'' then run x (DictLoop (i + 1) [])
                    else if c = CHR ''l'' then run x (ListLoop (i + 1) [])
                    else if c = CHR ''i'' then Some (decode_int x i)
                    else if is_digit c then
                      Some (case decode_string x i of
                              Inl e \<Rightarrow> Inl e
                            | Inr (s, j) \<Rightarrow> Inr (BStr s, j))
                    else Some (Inl (ValueError (InvalidMarker c))))
      | ListLoop i acc \<Rightarrow>
          if i < int (length x) then
            (case py_index x i of
               Inl e \<Rightarrow> Some (Inl e)
             | Inr c \<Rightarrow>
                 if c \<noteq> CHR ''e'' then
                   Option.bind (run x (Decode i)) (\<lambda>r.
                     case r of
                       Inl e \<Rightarrow> Some (Inl e)
                     | Inr (item, j) \<Rightarrow> run x (ListLoop j (acc @ [item])))
                 else Some (Inr (BList acc, i + 1)))
          else Some (Inr (BList acc, i + 1))
      | DictLoop i acc \<Rightarrow>
          if i < int (length x) then
            (case py_index x i of
               Inl e \<Rightarrow> Some (Inl e)
             | Inr c \<Rightarrow>
                 if c \<noteq> CHR ''e'' then
                   (case decode_string x i of
                      Inl e \<Rightarrow> Some (Inl e)
                    | Inr (key, j) \<Rightarrow>
                        Option.bind (run x (Decode j)) (\<lambda>r.
                          case r of
                            Inl e \<Rightarrow> Some (Inl e)
                          | Inr (val, k) \<Rightarrow> run x (DictLoop k (dict_set acc key val))))
                 else Some (Inr (BDict acc, i + 1)))
          else Some (Inr (BDict acc, i + 1)))"

declare run.simps [code]

text \<open>
  \<open>_decode_bencode\<close>: the outer \<open>option\<close> is whether the call returns; the inner one is
  Python's \<open>None\<close>, returned when any exception was caught.  The end cursor is discarded.
\<close>

definition decode_bencode :: "string \<Rightarrow> bvalue option option" where
  "decode_bencode data =
     map_option (\<lambda>r. case r of Inl e \<Rightarrow> None | Inr (result, _) \<Rightarrow> Some result)
       (run data (Decode 0))"

definition encode_bytes :: "string \<Rightarrow> string" where
  "encode_bytes s = py_str (int (length s)) @ '':'' @ s"

function encode_bencode :: "bvalue \<Rightarrow> string" where
  "encode_bencode (BStr s) = encode_bytes s"
| "encode_bencode (BInt n) = ''i'' @ py_str n @ ''e''"
| "encode_bencode (BList items) = ''l'' @ concat (map encode_bencode items) @ ''e''"
| "encode_bencode (BDict obj) =
     ''d'' @ concat (map (\<lambda>key. encode_bytes key @
                            (case map_of obj key of
                               Some v \<Rightarrow> encode_bencode v
                             | None \<Rightarrow> []))
                       (sort (map fst obj))) @ ''e''"
  by pat_completeness auto
termination
proof (relation "measure size")
  fix obj :: "(string \<times> bvalue) list" and key v
  assume "map_of obj key = Some v"
  then have "(key, v) \<in> set obj" by (rule map_of_SomeD)
  then show "(v, BDict obj) \<in> measure size"
    by (induction obj) auto
next
  fix items :: "bvalue list" and x
  assume "x \<in> set items"
  then show "(x, BList items) \<in> measure size"
    by (induction items) auto
qed simp


subsection \<open>Canonical encodings, following the grammar of the specification\<close>

text \<open>
  An Integer is \<open>i<digits>e\<close>, a ByteString is \<open><length>:<bytes>\<close>, a List is
  \<open>l<Value>*e\<close> and a Dictionary is \<open>d(<ByteString><Value>)*e\<close>, its entries written in
  the order in which the association list holds them.  A value is \<open>canonical\<close> when the
  keys of every dictionary in it are strictly ascending in byte order; the canonical byte
  sequences are the \<open>bencoding\<close>s of canonical values.  \<open>distinct_keys\<close> is the invariant
  of Python dictionaries: no key occurs twice.
\<close>

fun bencoding :: "bvalue \<Rightarrow> string" where
  "bencoding (BInt n) = ''i'' @ py_str n @ ''e''"
| "bencoding (BStr s) = py_str (int (length s)) @ '':'' @ s"
| "bencoding (BList vs) = ''l'' @ concat (map bencoding vs) @ ''e''"
| "bencoding (BDict kvs) =
     ''d'' @ concat (map (\<lambda>(k, v). bencoding (BStr k) @ bencoding v) kvs) @ ''e''"

fun canonical :: "bvalue \<Rightarrow> bool" where
  "canonical (BInt n) = True"
| "canonical (BStr s) = True"
| "canonical (BList vs) = (\<forall>v \<in> set vs. canonical v)"
| "canonical (BDict kvs) =
     (sorted_wrt (<) (map fst kvs) \<and> (\<forall>(k, v) \<in> set kvs. canonical v))"

fun distinct_keys :: "bvalue \<Rightarrow> bool" where
  "distinct_keys (BInt n) = True"
| "distinct_keys (BStr s) = True"
| "distinct_keys (BList vs) = (\<forall>v \<in> set vs. distinct_keys v)"
| "distinct_keys (BDict kvs) =
     (distinct (map fst kvs) \<and> (\<forall>(k, v) \<in> set kvs. distinct_keys v))"

subsection \<open>Equality of decoded values\<close>

text \<open>
  Python's \<open>==\<close> on the values the decoder builds: integers and byte strings by value,
  lists element by element, dictionaries when they have the same number of keys and every
  key of the first is a key of the second with an equal value.  The order in which a
  dictionary holds its keys plays no part, at any depth.
\<close>

fun py_eq :: "bvalue \<Rightarrow> bvalue \<Rightarrow> bool"
  and py_eq_list :: "bvalue list \<Rightarrow> bvalue list \<Rightarrow> bool"
  and py_eq_items :: "(string \<times> bvalue) list \<Rightarrow> (string \<times> bvalue) list \<Rightarrow> bool" where
  "py_eq (BInt m) (BInt n) = (m = n)"
| "py_eq (BStr s) (BStr t) = (s = t)"
| "py_eq (BList xs) (BList ys) = py_eq_list xs ys"
| "py_eq (BDict a) (BDict b) = (length a = length b \<and> py_eq_items a b)"
| "py_eq _ _ = False"
| "py_eq_list [] [] = True"
| "py_eq_list (x # xs) (y # ys) = (py_eq x y \<and> py_eq_list xs ys)"
| "py_eq_list _ _ = False"
| "py_eq_items [] b = True"
| "py_eq_items ((k, v) # a) b =
     ((case map_of b k of None \<Rightarrow> False | Some w \<Rightarrow> py_eq v w) \<and> py_eq_items a b)"

section \<open>Python operations on decoded values\<close>

text \<open>
  The metadata code applies \<open>in\<close>, \<open>[]\<close>, \<open>.get\<close>, \<open>.decode\<close>, iteration, truth testing and
  \<open>+=\<close> to whatever the decoder returned; each operation is defined on every shape of
  value, raising where Python raises.
\<close>

definition bind_exn :: "exn + 'a \<Rightarrow> ('a \<Rightarrow> exn + 'b) \<Rightarrow> exn + 'b" where
  "bind_exn m f = (case m of Inl e \<Rightarrow> Inl e | Inr a \<Rightarrow> f a)"

fun map_exn :: "('a \<Rightarrow> exn + 'b) \<Rightarrow> 'a list \<Rightarrow> exn + 'b list" where
  "map_exn f [] = Inr []"
| "map_exn f (x # xs) =
     bind_exn (f x) (\<lambda>y. bind_exn (map_exn f xs) (\<lambda>ys. Inr (y # ys)))"

fun is_substring :: "string \<Rightarrow> string \<Rightarrow> bool" where
  "is_substring k [] = (k = [])"
| "is_substring k (c # cs) = (take (length k) (c # cs) = k \<or> is_substring k cs)"

fun py_truthy :: "bvalue \<Rightarrow> bool" where
  "py_truthy (BInt n) = (n \<noteq> 0)"
| "py_truthy (BStr s) = (s \<noteq> [])"
| "py_truthy (BList vs) = (vs \<noteq> [])"
| "py_truthy (BDict kvs) = (kvs \<noteq> [])"

fun py_contains :: "bvalue \<Rightarrow> string \<Rightarrow> exn + bool" where
  "py_contains (BDict kvs) k = Inr (k \<in> set (map fst kvs))"
| "py_contains (BList vs) k = Inr (BStr k \<in> set vs)"
| "py_contains (BStr s) k = Inr (is_substring k s)"
| "py_contains (BInt n) k = Inl TypeError"

fun py_getitem :: "bvalue \<Rightarrow> string \<Rightarrow> exn + bvalue" where
  "py_getitem (BDict kvs) k = (case map_of kvs k of None \<Rightarrow> Inl KeyError | Some v \<Rightarrow> Inr v)"
| "py_getitem _ k = Inl TypeError"

fun py_get :: "bvalue \<Rightarrow> string \<Rightarrow> bvalue \<Rightarrow> exn + bvalue" where
  "py_get (BDict kvs) k d = Inr (case map_of kvs k of None \<Rightarrow> d | Some v \<Rightarrow> v)"
| "py_get _ k d = Inl AttributeError"

fun py_iter :: "bvalue \<Rightarrow> exn + bvalue list" where
  "py_iter (BList vs) = Inr vs"
| "py_iter (BDict kvs) = Inr (map (\<lambda>p. BStr (fst p)) kvs)"
| "py_iter (BStr s) = Inr (map (\<lambda>c. BInt (of_char c)) s)"
| "py_iter (BInt n) = Inl TypeError"

fun py_iadd :: "bvalue \<Rightarrow> bvalue \<Rightarrow> exn + bvalue" where
  "py_iadd (BInt m) (BInt n) = Inr (BInt (m + n))"
| "py_iadd (BStr s) (BStr t) = Inr (BStr (s @ t))"
| "py_iadd (BList xs) v = bind_exn (py_iter v) (\<lambda>ys. Inr (BList (xs @ ys)))"
| "py_iadd _ _ = Inl TypeError"

subsection \<open>Text: \<open>bytes.decode('utf-8', errors='ignore')\<close> and \<open>os.path.join\<close>\<close>

text \<open>
  A Python \<open>str\<close> is a list of code points.  The UTF-8 decoder is a state machine over the
  bytes: \<open>Some (need, acc, lo, hi)\<close> is an open multi-byte sequence that needs \<open>need\<close> more
  bytes, the next one in \<open>lo..hi\<close>.  A byte that cannot continue the open sequence drops
  that sequence and is read as the start of a new one; a byte that cannot start one is
  dropped; a sequence still open at the end is dropped.  \<open>os.path.join\<close> is the POSIX one.
\<close>

type_synonym pystr = "nat list"

definition ascii :: "string \<Rightarrow> pystr" where
  "ascii s = map of_char s"

type_synonym ustate = "(nat \<times> nat \<times> nat \<times> nat) option"

definition utf8_start :: "nat \<Rightarrow> pystr \<times> ustate" where
  "utf8_start b =
     (if b < 0x80 then ([b], None)
      else if 0xC2 \<le> b \<and> b \<le> 0xDF then ([], Some (1, b - 0xC0, 0x80, 0xBF))
      else if b = 0xE0 then ([], Some (2, 0, 0xA0, 0xBF))
      else if b = 0xED then ([], Some (2, 0xD, 0x80, 0x9F))
      else if 0xE1 \<le> b \<and> b \<le> 0xEF then ([], Some (2, b - 0xE0, 0x80, 0xBF))
      else if b = 0xF0 then ([], Some (3, 0, 0x90, 0xBF))
      else if b = 0xF4 then ([], Some (3, 4, 0x80, 0x8F))
      else if 0xF1 \<le> b \<and> b \<le> 0xF3 then ([], Some (3, b - 0xF0, 0x80, 0xBF))
      else ([], None))"

fun utf8_step :: "ustate \<Rightarrow> nat \<Rightarrow> pystr \<times> ustate" where
  "utf8_step None b = utf8_start b"
| "utf8_step (Some (need, acc, lo, hi)) b =
     (if lo \<le> b \<and> b \<le> hi then
        (let acc' = acc * 64 + (b - 0x80)
         in if need = 1 then ([acc'], None) else ([], Some (need - 1, acc', 0x80, 0xBF)))
      else utf8_start b)"

fun utf8_run :: "ustate \<Rightarrow> nat list \<Rightarrow> pystr" where
  "utf8_run st [] = []"
| "utf8_run st (b # bs) = (case utf8_step st b of (out, st') \<Rightarrow> out @ utf8_run st' bs)"

definition decode_utf8_ignore :: "string \<Rightarrow> pystr" where
  "decode_utf8_ignore s = utf8_run None (map of_char s)"

fun py_decode :: "bvalue \<Rightarrow> exn + pystr" where
  "py_decode (BStr s) = Inr (decode_utf8_ignore s)"
| "py_decode _ = Inl AttributeError"

definition path_join :: "pystr \<Rightarrow> pystr list \<Rightarrow> pystr" where
  "path_join a p =
     foldl (\<lambda>path b.
              if b \<noteq> [] \<and> hd b = 47 then b
              else if path = [] \<or> last path = 47 then path @ b
              else path @ 47 # b) a p"

section \<open>The verifier object and the filesystem\<close>

record file_info =
  fi_path :: pystr
  fi_length :: bvalue
  fi_piece_length :: bvalue

record verifier =
  torrent_path :: pystr
  torrent_data :: "bvalue option"
  info :: "bvalue option"
  info_hash :: "string option"
  files :: "file_info list"
  total_size :: bvalue

definition init :: "pystr \<Rightarrow> verifier" where
  "init p = \<lparr>torrent_path = p, torrent_data = None, info = None, info_hash = None,
             files = [], total_size = BInt 0\<rparr>"

text \<open>
  A filesystem snapshot answers \<open>os.stat\<close> for every path (no entry, another failure such
  as permission denied or a name that is too long, or the size in bytes) and gives the
  result of opening and reading a path.  \<open>os.path.exists\<close> is \<open>False\<close> whenever \<open>os.stat\<close>
  fails, whatever the reason; \<open>os.path.getsize\<close> raises when it fails.
\<close>

datatype stat_result = NoEntry | StatFailed | Size nat

record filesystem =
  fs_stat :: "pystr \<Rightarrow> stat_result"
  fs_read :: "pystr \<Rightarrow> exn + string"

definition os_path_exists :: "filesystem \<Rightarrow> pystr \<Rightarrow> bool" where
  "os_path_exists fs p = (case fs_stat fs p of Size n \<Rightarrow> True | _ \<Rightarrow> False)"

definition os_path_getsize :: "filesystem \<Rightarrow> pystr \<Rightarrow> exn + nat" where
  "os_path_getsize fs p = (case fs_stat fs p of Size n \<Rightarrow> Inr n | _ \<Rightarrow> Inl OSError)"

section \<open>Metadata extraction\<close>

text \<open>
  \<open>_extract_file_info\<close> appends to \<open>self.files\<close> and updates \<open>self.total_size\<close>; when it
  raises, the result is the exception with the object as it was left at that point.
\<close>

definition single_entry :: "bvalue \<Rightarrow> exn + file_info" where
  "single_entry info' =
     bind_exn (py_get info' ''name'' (BStr [])) (\<lambda>nm.
     bind_exn (py_decode nm) (\<lambda>p.
     bind_exn (py_get info' ''length'' (BInt 0)) (\<lambda>len.
     bind_exn (py_get info' ''piece length'' (BInt 0)) (\<lambda>pl.
       Inr \<lparr>fi_path = p, fi_length = len, fi_piece_length = pl\<rparr>))))"

definition multi_entry :: "bvalue \<Rightarrow> pystr \<Rightarrow> bvalue \<Rightarrow> exn + file_info" where
  "multi_entry info' base_path fi =
     bind_exn (py_getitem fi ''path'') (\<lambda>pv.
     bind_exn (py_iter pv) (\<lambda>ps.
     bind_exn (map_exn py_decode ps) (\<lambda>path_parts.
     bind_exn (py_getitem fi ''length'') (\<lambda>len.
     bind_exn (py_get info' ''piece length'' (BInt 0)) (\<lambda>pl.
       Inr \<lparr>fi_path = path_join base_path path_parts, fi_length = len,
            fi_piece_length = pl\<rparr>)))))"

fun extract_loop ::
  "bvalue \<Rightarrow> pystr \<Rightarrow> bvalue list \<Rightarrow> verifier \<Rightarrow> exn \<times> verifier + verifier" where
  "extract_loop info' base_path [] st = Inr st"
| "extract_loop info' base_path (fi # rest) st =
     (case multi_entry info' base_path fi of
        Inl e \<Rightarrow> Inl (e, st)
      | Inr ent \<Rightarrow>
          let st1 = st\<lparr>files := files st @ [ent]\<rparr>
          in (case py_iadd (total_size st1) (fi_length ent) of
                Inl e \<Rightarrow> Inl (e, st1)
              | Inr t \<Rightarrow> extract_loop info' base_path rest (st1\<lparr>total_size := t\<rparr>)))"

definition extract_file_info :: "verifier \<Rightarrow> exn \<times> verifier + verifier" where
  "extract_file_info st =
     (case info st of
        None \<Rightarrow> Inl (TypeError, st)
      | Some info' \<Rightarrow>
          (case py_contains info' ''files'' of
             Inl e \<Rightarrow> Inl (e, st)
           | Inr has_files \<Rightarrow>
               if \<not> has_files then
                 (case single_entry info' of
                    Inl e \<Rightarrow> Inl (e, st)
                  | Inr ent \<Rightarrow>
                      let st1 = st\<lparr>files := files st @ [ent]\<rparr>
                      in (case py_get info' ''length'' (BInt 0) of
                            Inl e \<Rightarrow> Inl (e, st1)
                          | Inr t \<Rightarrow> Inr (st1\<lparr>total_size := t\<rparr>)))
               else
                 (case bind_exn (py_get info' ''name'' (BStr [])) py_decode of
                    Inl e \<Rightarrow> Inl (e, st)
                  | Inr base_path \<Rightarrow>
                      (case bind_exn (py_getitem info' ''files'') py_iter of
                         Inl e \<Rightarrow> Inl (e, st)
                       | Inr fl \<Rightarrow> extract_loop info' base_path fl st))))"

section \<open>Loading a torrent file\<close>

text \<open>
  The module imports \<open>bencodepy\<close> when it is installed and falls back on its own codec
  otherwise.  The library is not part of the program, so it is a parameter: \<open>Some l\<close> is
  \<open>HAS_BENCODE = True\<close> with \<open>bencodepy.decode\<close> and \<open>bencodepy.encode\<close> given by \<open>l\<close>
  (each returns or raises), \<open>None\<close> is \<open>HAS_BENCODE = False\<close>.  \<open>codec_decode\<close> is the value
  assigned to \<open>self.torrent_data\<close> and \<open>codec_encode\<close> the bytes \<open>info_bencoded\<close>.
\<close>

record bencodepy =
  lib_decode :: "string \<Rightarrow> exn + bvalue"
  lib_encode :: "bvalue \<Rightarrow> exn + string"

definition codec_decode :: "bencodepy option \<Rightarrow> string \<Rightarrow> (exn + bvalue option) option" where
  "codec_decode lib data =
     (case lib of
        Some l \<Rightarrow> Some (case lib_decode l data of Inl e \<Rightarrow> Inl e | Inr v \<Rightarrow> Inr (Some v))
      | None \<Rightarrow> map_option Inr (decode_bencode data))"

definition codec_encode :: "bencodepy option \<Rightarrow> bvalue \<Rightarrow> exn + string" where
  "codec_encode lib v =
     (case lib of
        Some l \<Rightarrow> lib_encode l v
      | None \<Rightarrow> Inr (encode_bencode v))"

text \<open>
  The body of the \<open>try\<close> block of \<open>load_torrent\<close> either returns a boolean or raises; the
  \<open>except Exception\<close> handler turns every exception into \<open>False\<close>.
  \<open>H\<close> is \<open>hashlib.sha1(...).hexdigest()\<close>.  The result is \<open>None\<close> exactly when the
  fallback decoder is used and does not return.
\<close>

datatype outcome = Returned bool | Raised exn

definition load_body ::
  "(string \<Rightarrow> string) \<Rightarrow> bencodepy option \<Rightarrow> filesystem \<Rightarrow> verifier
     \<Rightarrow> (outcome \<times> verifier) option" where
  "load_body H lib fs st =
     (if \<not> os_path_exists fs (torrent_path st) then Some (Returned False, st)
      else
        (case fs_read fs (torrent_path st) of
           Inl e \<Rightarrow> Some (Raised e, st)
         | Inr data \<Rightarrow>
             (case codec_decode lib data of
                None \<Rightarrow> None
              | Some (Inl e) \<Rightarrow> Some (Raised e, st)
              | Some (Inr d) \<Rightarrow>
                  let st1 = st\<lparr>torrent_data := d\<rparr>
                  in (case d of
                        None \<Rightarrow> Some (Returned False, st1)
                      | Some tv \<Rightarrow>
                          if \<not> py_truthy tv then Some (Returned False, st1)
                          else
                            (case py_contains tv ''info'' of
                               Inl e \<Rightarrow> Some (Raised e, st1)
                             | Inr has_info \<Rightarrow>
                                 if \<not> has_info then Some (Returned False, st1)
                                 else
                                   (case py_getitem tv ''info'' of
                                      Inl e \<Rightarrow> Some (Raised e, st1)
                                    | Inr info' \<Rightarrow>
                                        let st2 = st1\<lparr>info := Some info'\<rparr>
                                        in (case codec_encode lib info' of
                                              Inl e \<Rightarrow> Some (Raised e, st2)
                                            | Inr info_bencoded \<Rightarrow>
                                                let st3 = st2\<lparr>info_hash :=
                                                              Some (H info_bencoded)\<rparr>
                                                in (case extract_file_info st3 of
                                                      Inl (e, st4) \<Rightarrow> Some (Raised e, st4)
                                                    | Inr st4 \<Rightarrow>
                                                        Some (Returned True, st4)))))))))"

definition load_torrent ::
  "(string \<Rightarrow> string) \<Rightarrow> bencodepy option \<Rightarrow> filesystem \<Rightarrow> verifier
     \<Rightarrow> (bool \<times> verifier) option" where
  "load_torrent H lib fs st =
     map_option (\<lambda>(out, st'). (case out of Returned b \<Rightarrow> b | Raised e \<Rightarrow> False, st'))
       (load_body H lib fs st)"

section \<open>Checking files against the filesystem\<close>

record missing_item =
  m_path :: pystr
  m_expected_size :: bvalue

record mismatch_item =
  s_path :: pystr
  s_expected_size :: bvalue
  s_actual_size :: nat

record valid_item =
  v_path :: pystr
  v_size :: bvalue

record results =
  missing :: "missing_item list"
  size_mismatch :: "mismatch_item list"
  valid :: "valid_item list"

fun verify_loop ::
  "filesystem \<Rightarrow> pystr \<Rightarrow> file_info list \<Rightarrow> results \<Rightarrow> exn + results" where
  "verify_loop fs base_dir [] r = Inr r"
| "verify_loop fs base_dir (fi # rest) r =
     (let file_path = path_join base_dir [fi_path fi]
      in if \<not> os_path_exists fs file_path then
           verify_loop fs base_dir rest
             (r\<lparr>missing := missing r @
                   [\<lparr>m_path = file_path, m_expected_size = fi_length fi\<rparr>]\<rparr>)
         else
           (case os_path_getsize fs file_path of
              Inl e \<Rightarrow> Inl e
            | Inr actual_size \<Rightarrow>
                if BInt (int actual_size) \<noteq> fi_length fi then
                  verify_loop fs base_dir rest
                    (r\<lparr>size_mismatch := size_mismatch r @
                          [\<lparr>s_path = file_path, s_expected_size = fi_length fi,
                            s_actual_size = actual_size\<rparr>]\<rparr>)
                else
                  verify_loop fs base_dir rest
                    (r\<lparr>valid := valid r @
                          [\<lparr>v_path = file_path, v_size = fi_length fi\<rparr>]\<rparr>)))"

definition verify_files_exist :: "filesystem \<Rightarrow> pystr \<Rightarrow> verifier \<Rightarrow> exn + results" where
  "verify_files_exist fs base_dir st =
     verify_loop fs base_dir (files st) \<lparr>missing = [], size_mismatch = [], valid = []\<rparr>"

subsection \<open>The classification of one entry, following the specification\<close>

text \<open>
  For one entry the path under the root is resolved; when no file can be found there the
  entry is missing, otherwise its size is compared with the expected length.  The three
  selections keep the order of the verdict list.
\<close>

datatype verdict = IsMissing missing_item | IsMismatch mismatch_item | IsValid valid_item

definition check_entry :: "filesystem \<Rightarrow> pystr \<Rightarrow> file_info \<Rightarrow> verdict" where
  "check_entry fs root fi =
     (let p = path_join root [fi_path fi]
      in case fs_stat fs p of
           Size n \<Rightarrow>
             if BInt (int n) = fi_length fi
             then IsValid \<lparr>v_path = p, v_size = fi_length fi\<rparr>
             else IsMismatch \<lparr>s_path = p, s_expected_size = fi_length fi, s_actual_size = n\<rparr>
         | _ \<Rightarrow> IsMissing \<lparr>m_path = p, m_expected_size = fi_length fi\<rparr>)"

definition the_missing :: "verdict list \<Rightarrow> missing_item list" where
  "the_missing vs = List.map_filter (\<lambda>v. case v of IsMissing m \<Rightarrow> Some m | _ \<Rightarrow> None) vs"

definition the_mismatch :: "verdict list \<Rightarrow> mismatch_item list" where
  "the_mismatch vs = List.map_filter (\<lambda>v. case v of IsMismatch m \<Rightarrow> Some m | _ \<Rightarrow> None) vs"

definition the_valid :: "verdict list \<Rightarrow> valid_item list" where
  "the_valid vs = List.map_filter (\<lambda>v. case v of IsValid m \<Rightarrow> Some m | _ \<Rightarrow> None) vs"


subsection \<open>Notions used to state the properties of the extraction\<close>

text \<open>
  \<open>sum_lengths\<close> is the arithmetic sum of the length fields of a list of entries, defined
  when every one of them is an integer.  \<open>get_default\<close> is a dictionary lookup with a
  default, as the specification describes the single-entry layout.
\<close>

fun sum_lengths :: "file_info list \<Rightarrow> int option" where
  "sum_lengths [] = Some 0"
| "sum_lengths (e # es) =
     (case fi_length e of
        BInt n \<Rightarrow> map_option (\<lambda>t. n + t) (sum_lengths es)
      | _ \<Rightarrow> None)"


definition get_default :: "(string \<times> bvalue) list \<Rightarrow> string \<Rightarrow> bvalue \<Rightarrow> bvalue" where
  "get_default kvs k d = (case map_of kvs k of None \<Rightarrow> d | Some v \<Rightarrow> v)"

subsection \<open>Concrete objects for the examples\<close>

definition fs_of :: "(pystr \<Rightarrow> stat_result) \<Rightarrow> filesystem" where
  "fs_of f = \<lparr>fs_stat = f, fs_read = (\<lambda>p. Inl OSError)\<rparr>"

definition one_file :: "string \<Rightarrow> int \<Rightarrow> verifier" where
  "one_file p n = (init [])\<lparr>files := [\<lparr>fi_path = ascii p, fi_length = BInt n, fi_piece_length = BInt 0\<rparr>]\<rparr>"


definition fs_with :: "string \<Rightarrow> filesystem" where
  "fs_with data = \<lparr>fs_stat = (\<lambda>p. Size (length data)), fs_read = (\<lambda>p. Inr data)\<rparr>"

definition plain_digest :: "string \<Rightarrow> string" where
  "plain_digest bs = bs"

definition length_is_bytes :: string where
  "length_is_bytes = ''d4:infod6:length1:5ee''"

definition sample_value :: bvalue where
  "sample_value = BDict [(''a'', BInt (- 12)), (''b'', BList [BStr ''xyz'', BDict []])]"

definition unsorted_value :: bvalue where
  "unsorted_value = BDict [(''b'', BInt 2), (''a'', BInt 1)]"

definition ab_file :: string where
  "ab_file = ''d4:infod1:ai1e1:bi2eee''"

definition ba_file :: string where
  "ba_file = ''d4:infod1:bi2e1:ai1eee''"

definition loaded :: "(string \<times> bvalue) list \<Rightarrow> string \<Rightarrow> verifier" where
  "loaded kvs digest =
     \<lparr>torrent_path = [], torrent_data = Some (BDict [(''info'', BDict kvs)]),
      info = Some (BDict kvs), info_hash = Some digest,
      files = [\<lparr>fi_path = [], fi_length = BInt 0, fi_piece_length = BInt 0\<rparr>],
      total_size = BInt 0\<rparr>"

definition nested_ab :: "(string \<times> bvalue) list" where
  "nested_ab = [(''a'', BDict [(''x'', BInt 1), (''y'', BInt 2)]), (''b'', BInt 2)]"

definition nested_ba :: "(string \<times> bvalue) list" where
  "nested_ba = [(''b'', BInt 2), (''a'', BDict [(''y'', BInt 2), (''x'', BInt 1)])]"

definition nested_ab_file :: string where
  "nested_ab_file = ''d4:infod1:ad1:xi1e1:yi2ee1:bi2eee''"

definition nested_ba_file :: string where
  "nested_ba_file = ''d4:infod1:bi2e1:ad1:yi2e1:xi1eeee''"

text \<open>
  A stand-in for \<open>bencodepy\<close> whose encoder writes the entries of a dictionary in the
  order in which the dictionary holds them, and whose decoder raises where the fallback
  decoder gives no value.
\<close>

definition insertion_order_lib :: bencodepy where
  "insertion_order_lib =
     \<lparr>lib_decode = (\<lambda>data. case decode_bencode data of
                               Some (Some v) \<Rightarrow> Inr v
                             | _ \<Rightarrow> Inl (ValueError InvalidString)),
      lib_encode = (\<lambda>v. Inr (bencoding v))\<rparr>"

definition looping_input :: string where
  "looping_input = ''d1:ai1e-6:''"

definition two_files :: string where
  "two_files = ''d4:infod5:filesld6:lengthi3e4:pathl1:aeed6:lengthi4e4:pathl1:beee4:name1:pee''"

definition two_files_info :: bvalue where
  "two_files_info =
     BDict [(''files'', BList [BDict [(''length'', BInt 3), (''path'', BList [BStr ''a''])],
                              BDict [(''length'', BInt 4), (''path'', BList [BStr ''b''])]]),
            (''name'', BStr ''p'')]"

section \<open>Properties of the codec on concrete inputs\<close>

text \<open>
  C3 (as amended).  The decoder hands the digits of an integer to \<open>int\<close> without looking
  at their form, so \<open>i-0e\<close> decodes to the integer 0.  The byte string \<open>5:ab\<close>, whose
  declared length runs past the end of the buffer, is a decode failure: the exception is
  caught and \<open>_decode_bencode\<close> returns \<open>None\<close>.
\<close>

theorem negative_zero_accepted_overrun_rejected:
  "decode_bencode ''i-0e'' = Some (Some (BInt 0)) \<and> decode_bencode ''5:ab'' = Some None"
  by code_simp

text \<open>
  C3 as stated fails: it is not the case that both \<open>i-0e\<close> and \<open>5:ab\<close> are decode
  failures.
\<close>

theorem negative_zero_counterexample:
  "\<not> (decode_bencode ''i-0e'' = Some None \<and> decode_bencode ''5:ab'' = Some None)"
  by code_simp

text \<open>
  C7 as stated fails: the list \<open>li1e\<close> is never closed by an \<open>e\<close>, and \<open>i1exyz\<close> has
  three bytes after a complete value, yet both decode to a value.
\<close>

theorem unterminated_and_trailing_counterexample:
  "decode_bencode ''li1e'' = Some (Some (BList [BInt 1]))
   \<and> decode_bencode ''i1exyz'' = Some (Some (BInt 1))"
  by code_simp

section \<open>Properties of the verification pass\<close>

lemma the_missing_simps [simp]:
  "the_missing [] = []"
  "the_missing (IsMissing m # vs) = m # the_missing vs"
  "the_missing (IsMismatch s # vs) = the_missing vs"
  "the_missing (IsValid v # vs) = the_missing vs"
  by (simp_all add: the_missing_def List.map_filter_simps)

lemma the_mismatch_simps [simp]:
  "the_mismatch [] = []"
  "the_mismatch (IsMissing m # vs) = the_mismatch vs"
  "the_mismatch (IsMismatch s # vs) = s # the_mismatch vs"
  "the_mismatch (IsValid v # vs) = the_mismatch vs"
  by (simp_all add: the_mismatch_def List.map_filter_simps)

lemma the_valid_simps [simp]:
  "the_valid [] = []"
  "the_valid (IsMissing m # vs) = the_valid vs"
  "the_valid (IsMismatch s # vs) = the_valid vs"
  "the_valid (IsValid v # vs) = v # the_valid vs"
  by (simp_all add: the_valid_def List.map_filter_simps)

lemma verdict_lengths:
  "length (the_missing vs) + length (the_mismatch vs) + length (the_valid vs) = length vs"
proof (induction vs)
  case Nil
  show ?case by simp
next
  case (Cons v vs)
  then show ?case by (cases v) simp_all
qed

lemma check_entry_valid:
  "fs_stat fs (path_join root [fi_path fi]) = Size n \<Longrightarrow> BInt (int n) = fi_length fi \<Longrightarrow>
   check_entry fs root fi = IsValid \<lparr>v_path = path_join root [fi_path fi], v_size = fi_length fi\<rparr>"
  by (simp add: check_entry_def)

lemma check_entry_mismatch:
  "fs_stat fs (path_join root [fi_path fi]) = Size n \<Longrightarrow> BInt (int n) \<noteq> fi_length fi \<Longrightarrow>
   check_entry fs root fi =
     IsMismatch \<lparr>s_path = path_join root [fi_path fi], s_expected_size = fi_length fi,
                 s_actual_size = n\<rparr>"
  by (simp add: check_entry_def)

lemma verify_loop_verdicts:
  "verify_loop fs root fis r =
     Inr \<lparr>missing = missing r @ the_missing (map (check_entry fs root) fis),
          size_mismatch = size_mismatch r @ the_mismatch (map (check_entry fs root) fis),
          valid = valid r @ the_valid (map (check_entry fs root) fis)\<rparr>"
proof (induction fis arbitrary: r)
  case Nil
  show ?case by simp
next
  case (Cons fi fis)
  let ?p = "path_join root [fi_path fi]"
  show ?case
  proof (cases "fs_stat fs ?p")
    case NoEntry
    then have "check_entry fs root fi = IsMissing \<lparr>m_path = ?p, m_expected_size = fi_length fi\<rparr>"
      by (simp add: check_entry_def)
    with NoEntry show ?thesis
      by (simp add: Cons.IH os_path_exists_def)
  next
    case StatFailed
    then have "check_entry fs root fi = IsMissing \<lparr>m_path = ?p, m_expected_size = fi_length fi\<rparr>"
      by (simp add: check_entry_def)
    with StatFailed show ?thesis
      by (simp add: Cons.IH os_path_exists_def)
  next
    case (Size n)
    show ?thesis
    proof (cases "BInt (int n) = fi_length fi")
      case True
      with Size show ?thesis
        by (simp add: Cons.IH os_path_exists_def os_path_getsize_def check_entry_valid)
    next
      case False
      with Size show ?thesis
        by (simp add: Cons.IH os_path_exists_def os_path_getsize_def check_entry_mismatch)
    qed
  qed
qed


text \<open>
  C5.  \<open>verify_files_exist\<close> always returns a report, and the report partitions the entry
  list: each entry has exactly one verdict, the three sequences are the missing, the
  mismatched and the valid verdicts in descriptor order, and their lengths add up to the
  number of entries.
\<close>

theorem verify_files_exist_partition:
  "\<exists>r. verify_files_exist fs root st = Inr r
     \<and> missing r = the_missing (map (check_entry fs root) (files st))
     \<and> size_mismatch r = the_mismatch (map (check_entry fs root) (files st))
     \<and> valid r = the_valid (map (check_entry fs root) (files st))
     \<and> length (missing r) + length (size_mismatch r) + length (valid r) = length (files st)"
  using verdict_lengths [of "map (check_entry fs root) (files st)"]
  by (simp add: verify_files_exist_def verify_loop_verdicts)

lemma stat_failed_missing:
  "fi \<in> set fis \<Longrightarrow> fs_stat fs (path_join root [fi_path fi]) = StatFailed \<Longrightarrow>
   \<lparr>m_path = path_join root [fi_path fi], m_expected_size = fi_length fi\<rparr>
     \<in> set (the_missing (map (check_entry fs root) fis))"
proof (induction fis)
  case Nil
  then show ?case by simp
next
  case (Cons a fis)
  show ?case
  proof (cases "fi = a")
    case True
    with Cons.prems show ?thesis by (simp add: check_entry_def)
  next
    case False
    with Cons have "\<lparr>m_path = path_join root [fi_path fi], m_expected_size = fi_length fi\<rparr>
     \<in> set (the_missing (map (check_entry fs root) fis))" by simp
    then show ?thesis by (cases "check_entry fs root a") simp_all
  qed
qed


text \<open>
  C4 (as amended).  A failure of \<open>os.stat\<close> other than "does not exist" does not abort
  the pass: a report is returned that classifies every entry, and each entry whose path
  could not be examined is reported in \<open>missing\<close>, because \<open>os.path.exists\<close> answers
  \<open>False\<close> for it.
\<close>

theorem stat_failure_reported_missing:
  "\<exists>r. verify_files_exist fs root st = Inr r
     \<and> length (missing r) + length (size_mismatch r) + length (valid r) = length (files st)
     \<and> (\<forall>fi \<in> set (files st).
           fs_stat fs (path_join root [fi_path fi]) = StatFailed \<longrightarrow>
           \<lparr>m_path = path_join root [fi_path fi], m_expected_size = fi_length fi\<rparr>
             \<in> set (missing r))"
  using verdict_lengths [of "map (check_entry fs root) (files st)"]
  by (simp add: verify_files_exist_def verify_loop_verdicts stat_failed_missing)

theorem stat_failure_reported_missing_witness:
  "\<exists>r. verify_files_exist (fs_of (\<lambda>p. StatFailed)) (ascii ''.'') (one_file ''a.txt'' 5) = Inr r
     \<and> \<lparr>m_path = ascii ''./a.txt'', m_expected_size = BInt 5\<rparr> \<in> set (missing r)"
  using stat_failure_reported_missing
    [of "fs_of (\<lambda>p. StatFailed)" "ascii ''.''" "one_file ''a.txt'' 5"]
  by (auto simp add: fs_of_def one_file_def init_def path_join_def ascii_def)


text \<open>
  C4 as stated fails: an entry whose path cannot be examined is not reported distinctly.
  It is listed as missing, and the report is the same as when the file does not exist.
\<close>

theorem stat_failure_counterexample:
  "verify_files_exist (fs_of (\<lambda>p. StatFailed)) (ascii ''.'') (one_file ''a.txt'' 5)
     = Inr \<lparr>missing = [\<lparr>m_path = ascii ''./a.txt'', m_expected_size = BInt 5\<rparr>],
            size_mismatch = [], valid = []\<rparr>
   \<and> verify_files_exist (fs_of (\<lambda>p. StatFailed)) (ascii ''.'') (one_file ''a.txt'' 5)
     = verify_files_exist (fs_of (\<lambda>p. NoEntry)) (ascii ''.'') (one_file ''a.txt'' 5)"
  by (simp add: verify_files_exist_def fs_of_def one_file_def init_def os_path_exists_def
        path_join_def ascii_def)

section \<open>Properties of the metadata extraction\<close>

lemma sum_lengths_snoc:
  "sum_lengths (es @ [e]) =
     (case fi_length e of
        BInt n \<Rightarrow> map_option (\<lambda>t. t + n) (sum_lengths es)
      | _ \<Rightarrow> None)"
proof (induction es)
  case Nil
  show ?case by (simp split: bvalue.splits)
next
  case (Cons a es)
  show ?case
    by (cases "fi_length a"; cases "fi_length e"; cases "sum_lengths es")
       (simp_all add: Cons.IH)
qed

lemma py_iadd_int: "py_iadd (BInt t) v = Inr w \<Longrightarrow> \<exists>n. v = BInt n \<and> w = BInt (t + n)"
  by (cases v) auto

lemma extract_loop_sum:
  "extract_loop info' base fl st = Inr st' \<Longrightarrow>
   sum_lengths (files st) = Some t \<Longrightarrow> total_size st = BInt t \<Longrightarrow>
   \<exists>t'. sum_lengths (files st') = Some t' \<and> total_size st' = BInt t'"
proof (induction fl arbitrary: st t)
  case Nil
  then show ?case by simp
next
  case (Cons fi fl)
  from Cons.prems(1) obtain ent where ent: "multi_entry info' base fi = Inr ent"
    by (cases "multi_entry info' base fi") simp_all
  let ?st1 = "st\<lparr>files := files st @ [ent]\<rparr>"
  from Cons.prems(1) ent obtain w where w: "py_iadd (total_size ?st1) (fi_length ent) = Inr w"
    by (cases "py_iadd (total_size ?st1) (fi_length ent)") (simp_all add: Let_def)
  with Cons.prems(3) obtain n where n: "fi_length ent = BInt n" "w = BInt (t + n)"
    using py_iadd_int [of t "fi_length ent" w] by auto
  from Cons.prems(1) ent w
  have rec: "extract_loop info' base fl (?st1\<lparr>total_size := w\<rparr>) = Inr st'"
    by (simp add: Let_def)
  have "sum_lengths (files (?st1\<lparr>total_size := w\<rparr>)) = Some (t + n)"
    using Cons.prems(2) n by (simp add: sum_lengths_snoc)
  moreover have "total_size (?st1\<lparr>total_size := w\<rparr>) = BInt (t + n)"
    using n by simp
  ultimately show ?case
    using Cons.IH [OF rec] by blast
qed

lemma extract_loop_fields:
  "extract_loop info' base fl st = Inr st' \<Longrightarrow>
   torrent_path st' = torrent_path st \<and> torrent_data st' = torrent_data st
   \<and> info st' = info st \<and> info_hash st' = info_hash st"
proof (induction fl arbitrary: st)
  case Nil
  then show ?case by simp
next
  case (Cons fi fl)
  from Cons.prems obtain ent where ent: "multi_entry info' base fi = Inr ent"
    by (cases "multi_entry info' base fi") simp_all
  let ?st1 = "st\<lparr>files := files st @ [ent]\<rparr>"
  from Cons.prems ent obtain w where w: "py_iadd (total_size ?st1) (fi_length ent) = Inr w"
    by (cases "py_iadd (total_size ?st1) (fi_length ent)") (simp_all add: Let_def)
  from Cons.prems ent w
  have rec: "extract_loop info' base fl (?st1\<lparr>total_size := w\<rparr>) = Inr st'"
    by (simp add: Let_def)
  from Cons.IH [OF rec] show ?case by simp
qed

lemma extract_single:
  assumes "info st = Some (BDict kvs)" and "''files'' \<notin> set (map fst kvs)"
  shows "extract_file_info st =
     (case py_decode (get_default kvs ''name'' (BStr [])) of
        Inl e \<Rightarrow> Inl (e, st)
      | Inr p \<Rightarrow>
          Inr (st\<lparr>files := files st @
                      [\<lparr>fi_path = p, fi_length = get_default kvs ''length'' (BInt 0),
                        fi_piece_length = get_default kvs ''piece length'' (BInt 0)\<rparr>],
                  total_size := get_default kvs ''length'' (BInt 0)\<rparr>))"
  using assms
  by (simp add: extract_file_info_def single_entry_def bind_exn_def get_default_def Let_def
      split: sum.splits)

text \<open>
  C9.  In single-entry mode (\<open>info\<close> is a dictionary without a \<open>files\<close> key) a missing key
  never makes \<open>_extract_file_info\<close> fail: without \<open>name\<close> it appends one entry whose path
  is the empty string; without \<open>length\<close> the entry's expected length and \<open>total_size\<close> are
  0.  The only failure of this mode is a \<open>name\<close> that is present and not a byte string.
\<close>

theorem single_entry_missing_keys:
  assumes "info st = Some (BDict kvs)" and "''files'' \<notin> set (map fst kvs)"
  shows "(map_of kvs ''name'' = None \<longrightarrow>
            (\<exists>st' e. extract_file_info st = Inr st' \<and> files st' = files st @ [e]
                      \<and> fi_path e = []))
       \<and> (map_of kvs ''length'' = None \<longrightarrow>
            (\<forall>st'. extract_file_info st = Inr st' \<longrightarrow>
               (\<exists>e. files st' = files st @ [e] \<and> fi_length e = BInt 0)
               \<and> total_size st' = BInt 0))
       \<and> ((\<exists>st'. extract_file_info st = Inr st') \<longleftrightarrow>
            (map_of kvs ''name'' = None \<or> (\<exists>s. map_of kvs ''name'' = Some (BStr s))))"
proof (intro conjI impI allI)
  assume "map_of kvs ''name'' = None"
  then show "\<exists>st' e. extract_file_info st = Inr st' \<and> files st' = files st @ [e]
                      \<and> fi_path e = []"
    by (simp add: extract_single [OF assms] get_default_def decode_utf8_ignore_def)
next
  fix st'
  assume "map_of kvs ''length'' = None" and "extract_file_info st = Inr st'"
  then show "(\<exists>e. files st' = files st @ [e] \<and> fi_length e = BInt 0)"
    by (auto simp add: extract_single [OF assms] get_default_def split: sum.splits)
next
  fix st'
  assume "map_of kvs ''length'' = None" and "extract_file_info st = Inr st'"
  then show "total_size st' = BInt 0"
    by (auto simp add: extract_single [OF assms] get_default_def split: sum.splits)
next
  show "(\<exists>st'. extract_file_info st = Inr st') \<longleftrightarrow>
            (map_of kvs ''name'' = None \<or> (\<exists>s. map_of kvs ''name'' = Some (BStr s)))"
  proof (cases "map_of kvs ''name''")
    case None
    then show ?thesis
      by (simp add: extract_single [OF assms] get_default_def)
  next
    case (Some v)
    then show ?thesis
      by (cases v) (simp_all add: extract_single [OF assms] get_default_def)
  qed
qed

theorem single_entry_missing_keys_witness:
  "\<exists>st'. extract_file_info ((init [])\<lparr>info := Some (BDict [])\<rparr>) = Inr st'
      \<and> files st' = [\<lparr>fi_path = [], fi_length = BInt 0, fi_piece_length = BInt 0\<rparr>]
      \<and> total_size st' = BInt 0"
  using single_entry_missing_keys [of "(init [])\<lparr>info := Some (BDict [])\<rparr>" "[]"]
  by (simp add: init_def extract_single get_default_def decode_utf8_ignore_def)

lemma digit_chars:
  "digit_char 0 = CHR ''0''" "digit_char 1 = CHR ''1''" "digit_char 2 = CHR ''2''"
  "digit_char 3 = CHR ''3''" "digit_char 4 = CHR ''4''" "digit_char 5 = CHR ''5''"
  "digit_char 6 = CHR ''6''" "digit_char 7 = CHR ''7''" "digit_char 8 = CHR ''8''"
  "digit_char 9 = CHR ''9''"
  by code_simp+

lemma digit_chars_Suc:
  "digit_char (Suc 0) = CHR ''1''"
  "digit_char (Suc (Suc 0)) = CHR ''2''"
  "digit_char (Suc (Suc (Suc 0))) = CHR ''3''"
  "digit_char (Suc (Suc (Suc (Suc 0)))) = CHR ''4''"
  "digit_char (Suc (Suc (Suc (Suc (Suc 0))))) = CHR ''5''"
  "digit_char (Suc (Suc (Suc (Suc (Suc (Suc 0)))))) = CHR ''6''"
  "digit_char (Suc (Suc (Suc (Suc (Suc (Suc (Suc 0))))))) = CHR ''7''"
  "digit_char (Suc (Suc (Suc (Suc (Suc (Suc (Suc (Suc 0)))))))) = CHR ''8''"
  "digit_char (Suc (Suc (Suc (Suc (Suc (Suc (Suc (Suc (Suc 0))))))))) = CHR ''9''"
  by code_simp+

lemmas encode_eval = encode_bytes_def py_str_def str_nat.simps digit_chars digit_chars_Suc

lemma decode_ascii_pkg:
  "decode_utf8_ignore ''pkg'' = ascii ''pkg''"
  "decode_utf8_ignore ''sub'' = ascii ''sub''"
  "decode_utf8_ignore ''b.bin'' = ascii ''b.bin''"
  by (simp_all add: decode_utf8_ignore_def utf8_start_def ascii_def)

lemma join_pkg:
  "path_join (ascii ''pkg'') [ascii ''sub'', ascii ''b.bin''] = ascii ''pkg/sub/b.bin''"
  by (simp add: path_join_def ascii_def)

lemma map_of_in_keys: "map_of kvs k = Some v \<Longrightarrow> k \<in> set (map fst kvs)"
  by (metis map_of_eq_None_iff option.distinct(1) set_map)

lemma extract_multi:
  assumes "info st = Some (BDict kvs)" and "map_of kvs ''files'' = Some fv"
  shows "extract_file_info st =
     (case py_decode (get_default kvs ''name'' (BStr [])) of
        Inl e \<Rightarrow> Inl (e, st)
      | Inr base_path \<Rightarrow>
          (case py_iter fv of
             Inl e \<Rightarrow> Inl (e, st)
           | Inr fl \<Rightarrow> extract_loop (BDict kvs) base_path fl st))"
  using assms map_of_in_keys [OF assms(2)]
  by (simp add: extract_file_info_def bind_exn_def get_default_def split: sum.splits)

text \<open>
  C8.  For an \<open>info\<close> dictionary with \<open>name = "pkg"\<close> and
  \<open>files = [{path: ["sub", "b.bin"], length: 10}]\<close> (whatever other keys the two
  dictionaries hold), extraction on a fresh object yields exactly one entry, with path
  \<open>pkg/sub/b.bin\<close> and expected length 10; when no file exists at that path under the
  verification root, \<open>verify_files_exist\<close> reports that entry, and nothing else, in
  \<open>missing\<close>.
\<close>

theorem multi_entry_example:
  assumes "info st = Some (BDict kvs)"
    and "map_of kvs ''files'' = Some (BList [BDict fkvs])"
    and "map_of kvs ''name'' = Some (BStr ''pkg'')"
    and "map_of fkvs ''path'' = Some (BList [BStr ''sub'', BStr ''b.bin''])"
    and "map_of fkvs ''length'' = Some (BInt 10)"
    and "files st = []" and "total_size st = BInt 0"
    and "fs_stat fs (path_join root [ascii ''pkg/sub/b.bin'']) = NoEntry"
  shows "\<exists>st'. extract_file_info st = Inr st'
     \<and> files st' = [\<lparr>fi_path = ascii ''pkg/sub/b.bin'', fi_length = BInt 10,
                     fi_piece_length = get_default kvs ''piece length'' (BInt 0)\<rparr>]
     \<and> verify_files_exist fs root st' =
           Inr \<lparr>missing = [\<lparr>m_path = path_join root [ascii ''pkg/sub/b.bin''],
                             m_expected_size = BInt 10\<rparr>],
                size_mismatch = [], valid = []\<rparr>"
proof -
  have ent: "multi_entry (BDict kvs) (ascii ''pkg'') (BDict fkvs) =
      Inr \<lparr>fi_path = ascii ''pkg/sub/b.bin'', fi_length = BInt 10,
           fi_piece_length = get_default kvs ''piece length'' (BInt 0)\<rparr>"
    using assms(4,5)
    by (simp add: multi_entry_def bind_exn_def decode_ascii_pkg join_pkg get_default_def)
  have "extract_file_info st =
      Inr (st\<lparr>files := [\<lparr>fi_path = ascii ''pkg/sub/b.bin'', fi_length = BInt 10,
                         fi_piece_length = get_default kvs ''piece length'' (BInt 0)\<rparr>],
              total_size := BInt 10\<rparr>)"
    using assms(3,6,7)
    by (simp add: extract_multi [OF assms(1,2)] get_default_def decode_ascii_pkg ent Let_def)
  then show ?thesis
    using assms(8)
    by (simp add: verify_files_exist_def os_path_exists_def)
qed

theorem multi_entry_example_witness:
  "\<exists>st'. extract_file_info
       ((init [])\<lparr>info := Some (BDict [(''files'', BList [BDict
           [(''path'', BList [BStr ''sub'', BStr ''b.bin'']), (''length'', BInt 10)]]),
           (''name'', BStr ''pkg'')])\<rparr>) = Inr st'
     \<and> files st' = [\<lparr>fi_path = ascii ''pkg/sub/b.bin'', fi_length = BInt 10,
                     fi_piece_length = BInt 0\<rparr>]
     \<and> verify_files_exist (fs_of (\<lambda>p. NoEntry)) (ascii ''.'') st' =
           Inr \<lparr>missing = [\<lparr>m_path = ascii ''./pkg/sub/b.bin'', m_expected_size = BInt 10\<rparr>],
                size_mismatch = [], valid = []\<rparr>"
  using multi_entry_example
    [of "(init [])\<lparr>info := Some (BDict [(''files'', BList [BDict
           [(''path'', BList [BStr ''sub'', BStr ''b.bin'']), (''length'', BInt 10)]]),
           (''name'', BStr ''pkg'')])\<rparr>"
        "[(''files'', BList [BDict
           [(''path'', BList [BStr ''sub'', BStr ''b.bin'']), (''length'', BInt 10)]]),
           (''name'', BStr ''pkg'')]"
        "[(''path'', BList [BStr ''sub'', BStr ''b.bin'']), (''length'', BInt 10)]"
        "fs_of (\<lambda>p. NoEntry)" "ascii ''.''"]
  by (simp add: init_def get_default_def fs_of_def path_join_def ascii_def)

section \<open>Properties of \<open>load_torrent\<close>\<close>

lemma extract_file_info_fields:
  assumes "extract_file_info st = Inr st'"
  shows "torrent_path st' = torrent_path st \<and> torrent_data st' = torrent_data st
        \<and> info st' = info st \<and> info_hash st' = info_hash st"
proof -
  from assms obtain info' where i: "info st = Some info'"
    by (cases "info st") (simp_all add: extract_file_info_def)
  from assms i obtain has where h: "py_contains info' ''files'' = Inr has"
    by (cases "py_contains info' ''files''") (simp_all add: extract_file_info_def)
  show ?thesis
  proof (cases has)
    case False
    with assms i h show ?thesis
      by (auto simp add: extract_file_info_def Let_def split: sum.splits)
  next
    case True
    with assms i h obtain base fl where "extract_loop info' base fl st = Inr st'"
      by (auto simp add: extract_file_info_def split: sum.splits)
    then show ?thesis by (rule extract_loop_fields)
  qed
qed

lemma extract_file_info_sum:
  assumes "extract_file_info st = Inr st'" and "info st = Some info'"
    and "files st = []" and "total_size st = BInt 0"
  shows "(\<forall>t. sum_lengths (files st') = Some t \<longrightarrow> total_size st' = BInt t)
       \<and> (py_contains info' ''files'' = Inr True \<longrightarrow>
            (\<exists>t. sum_lengths (files st') = Some t))
       \<and> (py_getitem info' ''files'' = Inr (BList []) \<longrightarrow>
            files st' = [] \<and> total_size st' = BInt 0)"
proof -
  from assms obtain has where h: "py_contains info' ''files'' = Inr has"
    by (cases "py_contains info' ''files''") (simp_all add: extract_file_info_def)
  show ?thesis
  proof (cases has)
    case False
    from assms(1,2) h False obtain kvs where
      kv: "info' = BDict kvs" "''files'' \<notin> set (map fst kvs)"
      by (cases info')
         (auto simp add: extract_file_info_def single_entry_def bind_exn_def
               split: sum.splits)
    from assms(2) kv have i: "info st = Some (BDict kvs)" by simp
    have "\<exists>p. st' = st\<lparr>files := files st @
                      [\<lparr>fi_path = p, fi_length = get_default kvs ''length'' (BInt 0),
                        fi_piece_length = get_default kvs ''piece length'' (BInt 0)\<rparr>],
                  total_size := get_default kvs ''length'' (BInt 0)\<rparr>"
      using assms(1) unfolding extract_single [OF i kv(2)]
      by (cases "py_decode (get_default kvs ''name'' (BStr []))") auto
    then obtain p where p: "st' = st\<lparr>files := files st @
                      [\<lparr>fi_path = p, fi_length = get_default kvs ''length'' (BInt 0),
                        fi_piece_length = get_default kvs ''piece length'' (BInt 0)\<rparr>],
                  total_size := get_default kvs ''length'' (BInt 0)\<rparr>"
      by blast
    define ent where "ent = \<lparr>fi_path = p, fi_length = get_default kvs ''length'' (BInt 0),
                        fi_piece_length = get_default kvs ''piece length'' (BInt 0)\<rparr>"
    have st': "st' = st\<lparr>files := files st @ [ent], total_size := fi_length ent\<rparr>"
      using p by (simp add: ent_def)
    have nokey: "py_getitem info' ''files'' \<noteq> Inr (BList [])"
      using h False by (cases info') (auto split: option.splits dest: map_of_in_keys)
    have "\<forall>t. sum_lengths (files st') = Some t \<longrightarrow> total_size st' = BInt t"
      using st' assms(3) by (cases "fi_length ent") simp_all
    with h False nokey show ?thesis by simp
  next
    case True
    with assms(1,2) h obtain base fl where
      loop: "extract_loop info' base fl st = Inr st'"
      and fl: "bind_exn (py_getitem info' ''files'') py_iter = Inr fl"
      by (auto simp add: extract_file_info_def split: sum.splits)
    from extract_loop_sum [OF loop, of 0] assms(3,4)
    obtain t' where t': "sum_lengths (files st') = Some t'" "total_size st' = BInt t'"
      by auto
    have "py_getitem info' ''files'' = Inr (BList []) \<longrightarrow> files st' = [] \<and> total_size st' = BInt 0"
    proof
      assume "py_getitem info' ''files'' = Inr (BList [])"
      with fl have "fl = []" by (simp add: bind_exn_def)
      with loop assms(3,4) show "files st' = [] \<and> total_size st' = BInt 0" by simp
    qed
    with t' show ?thesis by simp
  qed
qed

lemma load_torrent_True:
  "load_torrent H lib fs st = Some (True, st') \<longleftrightarrow>
     (\<exists>data tv info' enc.
        os_path_exists fs (torrent_path st)
      \<and> fs_read fs (torrent_path st) = Inr data
      \<and> codec_decode lib data = Some (Inr (Some tv))
      \<and> py_truthy tv
      \<and> py_contains tv ''info'' = Inr True
      \<and> py_getitem tv ''info'' = Inr info'
      \<and> codec_encode lib info' = Inr enc
      \<and> extract_file_info (st\<lparr>torrent_data := Some tv, info := Some info',
             info_hash := Some (H enc)\<rparr>) = Inr st')"
  by (auto simp add: load_torrent_def load_body_def Let_def
      split: sum.splits option.splits if_splits outcome.splits prod.splits)

lemma codec_decode_None:
  "codec_decode lib data = None \<longleftrightarrow> lib = None \<and> decode_bencode data = None"
  by (cases lib) (simp_all add: codec_decode_def)

lemma load_torrent_None:
  "load_torrent H lib fs st = None \<longleftrightarrow>
     (\<exists>data. os_path_exists fs (torrent_path st)
        \<and> fs_read fs (torrent_path st) = Inr data
        \<and> lib = None \<and> decode_bencode data = None)"
  unfolding codec_decode_None [symmetric]
  by (auto simp add: load_torrent_def load_body_def Let_def
      split: sum.splits option.splits if_splits outcome.splits prod.splits)

text \<open>
  C6 (as amended).  After \<open>load_torrent\<close> succeeds on a freshly constructed verifier,
  \<open>total_size\<close> is the sum of the length fields of the entries whenever those fields are
  all integers.  In the multi-entry layout they always are, so the sum invariant holds
  there without condition, and an empty \<open>files\<close> list gives no entry and \<open>total_size\<close> 0.
  In the single-entry layout there is one entry and \<open>total_size\<close> is its length field,
  which is \<open>info.get(b'length', 0)\<close> whatever its type.
\<close>

theorem total_size_sum:
  assumes "load_torrent H lib fs (init p) = Some (True, st')"
  shows "(\<forall>t. sum_lengths (files st') = Some t \<longrightarrow> total_size st' = BInt t)
       \<and> (\<forall>info'. info st' = Some info' \<and> py_contains info' ''files'' = Inr True \<longrightarrow>
             (\<exists>t. sum_lengths (files st') = Some t \<and> total_size st' = BInt t))
       \<and> (\<forall>info'. info st' = Some info' \<and> py_getitem info' ''files'' = Inr (BList []) \<longrightarrow>
             files st' = [] \<and> total_size st' = BInt 0)
       \<and> (\<forall>info'. info st' = Some info' \<and> py_contains info' ''files'' = Inr False \<longrightarrow>
             (\<exists>e. files st' = [e] \<and> fi_length e = total_size st')
             \<and> py_get info' ''length'' (BInt 0) = Inr (total_size st'))"
proof -
  from assms obtain tv info' enc where
    ex: "extract_file_info ((init p)\<lparr>torrent_data := Some tv, info := Some info',
             info_hash := Some (H enc)\<rparr>) = Inr st'"
    unfolding load_torrent_True by blast
  let ?st = "(init p)\<lparr>torrent_data := Some tv, info := Some info',
             info_hash := Some (H enc)\<rparr>"
  have i: "info ?st = Some info'" and f: "files ?st = []" and t: "total_size ?st = BInt 0"
    by (simp_all add: init_def)
  have i': "info st' = Some info'"
    using extract_file_info_fields [OF ex] by simp
  note sum = extract_file_info_sum [OF ex i f t]
  have single: "py_contains info' ''files'' = Inr False \<longrightarrow>
             (\<exists>e. files st' = [e] \<and> fi_length e = total_size st')
             \<and> py_get info' ''length'' (BInt 0) = Inr (total_size st')"
  proof
    assume nf: "py_contains info' ''files'' = Inr False"
    then obtain kvs where kv: "info' = BDict kvs" "''files'' \<notin> set (map fst kvs)"
      using ex
      by (cases info')
         (auto simp add: extract_file_info_def single_entry_def bind_exn_def init_def
               split: sum.splits)
    have ik: "info ?st = Some (BDict kvs)" using kv by simp
    show "(\<exists>e. files st' = [e] \<and> fi_length e = total_size st')
             \<and> py_get info' ''length'' (BInt 0) = Inr (total_size st')"
      using ex unfolding extract_single [OF ik kv(2)]
      by (cases "py_decode (get_default kvs ''name'' (BStr []))")
         (auto simp add: init_def kv get_default_def)
  qed
  from sum single i' show ?thesis by auto
qed

lemma decode_length_is_bytes:
  "decode_bencode length_is_bytes =
     Some (Some (BDict [(''info'', BDict [(''length'', BStr ''5'')])]))"
  unfolding length_is_bytes_def by code_simp

lemma load_length_is_bytes:
  "load_torrent plain_digest None (fs_with length_is_bytes) (init []) =
     Some (True,
       \<lparr>torrent_path = [],
        torrent_data = Some (BDict [(''info'', BDict [(''length'', BStr ''5'')])]),
        info = Some (BDict [(''length'', BStr ''5'')]),
        info_hash = Some ''d6:length1:5e'',
        files = [\<lparr>fi_path = [], fi_length = BStr ''5'', fi_piece_length = BInt 0\<rparr>],
        total_size = BStr ''5''\<rparr>)"
  by (simp add: load_torrent_def load_body_def codec_decode_def codec_encode_def os_path_exists_def fs_with_def init_def
        decode_length_is_bytes encode_eval plain_digest_def
        extract_file_info_def single_entry_def bind_exn_def decode_utf8_ignore_def)

text \<open>
  C6 as stated fails: a single-entry torrent whose \<open>length\<close> is the byte string \<open>5\<close>
  loads successfully, and \<open>total_size\<close> is then that byte string, not a sum of numbers.
\<close>

theorem total_size_counterexample:
  "load_torrent plain_digest None (fs_with length_is_bytes) (init []) =
     Some (True,
       \<lparr>torrent_path = [],
        torrent_data = Some (BDict [(''info'', BDict [(''length'', BStr ''5'')])]),
        info = Some (BDict [(''length'', BStr ''5'')]),
        info_hash = Some ''d6:length1:5e'',
        files = [\<lparr>fi_path = [], fi_length = BStr ''5'', fi_piece_length = BInt 0\<rparr>],
        total_size = BStr ''5''\<rparr>)
   \<and> sum_lengths [\<lparr>fi_path = [], fi_length = BStr ''5'', fi_piece_length = BInt 0\<rparr>] = None"
  by (simp add: load_length_is_bytes)

lemma decode_two_files:
  "decode_bencode two_files = Some (Some (BDict [(''info'', two_files_info)]))"
  unfolding two_files_def two_files_info_def by code_simp

lemma load_two_files:
  "load_torrent plain_digest None (fs_with two_files) (init []) =
     Some (True,
       \<lparr>torrent_path = [],
        torrent_data = Some (BDict [(''info'', two_files_info)]),
        info = Some two_files_info,
        info_hash = Some (encode_bencode two_files_info),
        files = [\<lparr>fi_path = ascii ''p/a'', fi_length = BInt 3, fi_piece_length = BInt 0\<rparr>,
                 \<lparr>fi_path = ascii ''p/b'', fi_length = BInt 4, fi_piece_length = BInt 0\<rparr>],
        total_size = BInt 7\<rparr>)"
proof -
  have ex: "extract_file_info
      ((init [])\<lparr>torrent_data := Some (BDict [(''info'', two_files_info)]),
                 info := Some two_files_info,
                 info_hash := Some (plain_digest (encode_bencode two_files_info))\<rparr>) =
     Inr \<lparr>torrent_path = [],
        torrent_data = Some (BDict [(''info'', two_files_info)]),
        info = Some two_files_info,
        info_hash = Some (encode_bencode two_files_info),
        files = [\<lparr>fi_path = ascii ''p/a'', fi_length = BInt 3, fi_piece_length = BInt 0\<rparr>,
                 \<lparr>fi_path = ascii ''p/b'', fi_length = BInt 4, fi_piece_length = BInt 0\<rparr>],
        total_size = BInt 7\<rparr>"
    unfolding two_files_info_def
    by (simp add: extract_file_info_def multi_entry_def bind_exn_def init_def plain_digest_def
          decode_utf8_ignore_def utf8_start_def path_join_def ascii_def Let_def
          del: encode_bencode.simps)
  have g: "py_getitem (BDict [(''info'', two_files_info)]) ''info'' = Inr two_files_info"
    by simp
  have c: "py_contains (BDict [(''info'', two_files_info)]) ''info'' = Inr True"
    by simp
  show ?thesis
    unfolding load_torrent_True
    using ex g c decode_two_files
    by (simp add: os_path_exists_def fs_with_def init_def codec_decode_def codec_encode_def
          plain_digest_def)
qed

theorem total_size_sum_witness:
  "\<exists>st'. load_torrent plain_digest None (fs_with two_files) (init []) = Some (True, st')
      \<and> sum_lengths (files st') = Some 7 \<and> total_size st' = BInt 7"
  using total_size_sum [OF load_two_files]
  by (simp add: load_two_files)

text \<open>
  C10.  \<open>load_torrent\<close> has no exceptional result: it returns a boolean whenever the
  decoder returns on the bytes of the file (and does not return only when the file was
  read and the decoder loops on it).  Every exception raised in its body, while reading,
  decoding, hashing or extracting, is turned into \<open>False\<close>.  It returns \<open>True\<close> only when
  the decoded root held \<open>info\<close>, and \<open>info\<close>, \<open>info_hash\<close>, \<open>files\<close> and \<open>total_size\<close> are
  those constructed from it.
\<close>

theorem load_torrent_catches:
  "(load_torrent H lib fs st = None \<longleftrightarrow>
      (\<exists>data. os_path_exists fs (torrent_path st)
         \<and> fs_read fs (torrent_path st) = Inr data
         \<and> lib = None \<and> decode_bencode data = None))
   \<and> (\<forall>e st'. load_body H lib fs st = Some (Raised e, st') \<longrightarrow>
         load_torrent H lib fs st = Some (False, st'))
   \<and> (\<forall>st'. load_torrent H lib fs st = Some (True, st') \<longrightarrow>
         (\<exists>tv info' enc. torrent_data st' = Some tv \<and> py_getitem tv ''info'' = Inr info'
            \<and> info st' = Some info'
            \<and> codec_encode lib info' = Inr enc
            \<and> info_hash st' = Some (H enc)
            \<and> extract_file_info (st\<lparr>torrent_data := Some tv, info := Some info',
                   info_hash := Some (H enc)\<rparr>) = Inr st'))"
proof (intro conjI allI impI)
  show "load_torrent H lib fs st = None \<longleftrightarrow>
      (\<exists>data. os_path_exists fs (torrent_path st)
         \<and> fs_read fs (torrent_path st) = Inr data
         \<and> lib = None \<and> decode_bencode data = None)"
    by (rule load_torrent_None)
next
  fix e st'
  assume "load_body H lib fs st = Some (Raised e, st')"
  then show "load_torrent H lib fs st = Some (False, st')"
    by (simp add: load_torrent_def)
next
  fix st'
  assume "load_torrent H lib fs st = Some (True, st')"
  then obtain tv info' enc where
    g: "py_getitem tv ''info'' = Inr info'" and
    c: "codec_encode lib info' = Inr enc" and
    ex: "extract_file_info (st\<lparr>torrent_data := Some tv, info := Some info',
             info_hash := Some (H enc)\<rparr>) = Inr st'"
    unfolding load_torrent_True by blast
  from extract_file_info_fields [OF ex] g c ex
  show "\<exists>tv info' enc. torrent_data st' = Some tv \<and> py_getitem tv ''info'' = Inr info'
            \<and> info st' = Some info'
            \<and> codec_encode lib info' = Inr enc
            \<and> info_hash st' = Some (H enc)
            \<and> extract_file_info (st\<lparr>torrent_data := Some tv, info := Some info',
                   info_hash := Some (H enc)\<rparr>) = Inr st'"
    by auto
qed

theorem load_torrent_catches_witness:
  "load_torrent plain_digest None (fs_of (\<lambda>p. NoEntry)) (init []) = Some (False, init [])
   \<and> load_torrent plain_digest None (fs_with length_is_bytes) (init []) \<noteq> None
   \<and> load_torrent plain_digest None (fs_with ''5:ab'') (init []) =
       Some (False, (init [])\<lparr>torrent_data := None\<rparr>)"
proof -
  have d: "decode_bencode ''5:ab'' = Some None" by code_simp
  have a: "load_torrent plain_digest None (fs_of (\<lambda>p. NoEntry)) (init []) = Some (False, init [])"
    by (simp add: load_torrent_def load_body_def codec_decode_def codec_encode_def os_path_exists_def fs_of_def)
  have b: "load_torrent plain_digest None (fs_with ''5:ab'') (init []) =
       Some (False, (init [])\<lparr>torrent_data := None\<rparr>)"
    by (simp add: load_torrent_def load_body_def codec_decode_def codec_encode_def os_path_exists_def fs_with_def d init_def)
  from load_torrent_catches [of plain_digest None "fs_with length_is_bytes" "init []"] a b
  show ?thesis
    by (simp add: load_length_is_bytes)
qed

section \<open>The decoder on well-formed input\<close>

text \<open>
  The cursor lemmas: indexing, searching and slicing at a known non-negative position of
  a buffer that is given as a concatenation.
\<close>

lemma py_index_at:
  "x = pre @ c # rest \<Longrightarrow> i = int (length pre) \<Longrightarrow> py_index x i = Inr c"
  by (simp add: py_index_def)

lemma index_of_fresh: "c \<notin> set mid \<Longrightarrow> index_of c (mid @ c # rest) = Some (length mid)"
  by (induction mid) auto

lemma py_find_at:
  "x = pre @ mid @ c # rest \<Longrightarrow> c \<notin> set mid \<Longrightarrow> i = int (length pre) \<Longrightarrow>
   py_find x c i = i + int (length mid)"
  by (simp add: py_find_def index_of_fresh)

lemma py_slice_at:
  "x = pre @ mid @ rest \<Longrightarrow> i = int (length pre) \<Longrightarrow> j = i + int (length mid) \<Longrightarrow>
   py_slice x i j = mid"
  by (simp add: py_slice_def clamp_pos_def)

lemma is_digit_digit_char: "d < 10 \<Longrightarrow> is_digit (digit_char d)"
  by (simp add: is_digit_def digit_char_def)

lemma of_char_digit_char: "d < 10 \<Longrightarrow> of_char (digit_char d) = 48 + d"
  by (simp add: digit_char_def)

lemma str_nat_digits: "c \<in> set (str_nat n) \<Longrightarrow> is_digit c"
proof (induction n rule: str_nat.induct)
  case (1 n)
  show ?case
  proof (cases "n < 10")
    case True
    with "1.prems" show ?thesis
      by (simp add: str_nat.simps [of n] is_digit_digit_char)
  next
    case False
    with "1.prems" "1.IH" show ?thesis
      by (auto simp add: str_nat.simps [of n] is_digit_digit_char)
  qed
qed

lemma str_nat_nonempty: "str_nat n \<noteq> []"
  by (subst str_nat.simps) simp

lemma digits_value_snoc:
  "is_digit c \<Longrightarrow> digits_value (ds @ [c]) = 10 * digits_value ds + (of_char c - 48)"
  by (simp add: digits_value_def)

lemma digits_value_str_nat: "digits_value (str_nat n) = n"
proof (induction n rule: str_nat.induct)
  case (1 n)
  show ?case
  proof (cases "n < 10")
    case True
    then show ?thesis
      by (simp add: str_nat.simps [of n] digits_value_def is_digit_digit_char of_char_digit_char)
  next
    case False
    with "1.IH" show ?thesis
      by (simp add: str_nat.simps [of n] digits_value_snoc is_digit_digit_char of_char_digit_char)
  qed
qed

lemma no_double_us: "CHR ''_'' \<notin> set s \<Longrightarrow> \<not> double_us s"
  by (induction s rule: double_us.induct) auto

lemma py_int_digits:
  assumes "ds \<noteq> []" and "\<forall>c \<in> set ds. is_digit c"
  shows "py_int ds = Some (int (digits_value ds))"
    and "py_int (CHR ''-'' # ds) = Some (- int (digits_value ds))"
proof -
  have hd: "is_digit (hd ds)" using assms by simp
  have nospace: "\<not> is_space (hd ds)" "hd ds \<noteq> CHR ''+''" "hd ds \<noteq> CHR ''-''"
    "hd ds \<noteq> CHR ''_''"
    using hd by (auto simp add: is_digit_def is_space_def)
  have nonul: "CHR 0x00 \<notin> set ds"
    using assms(2) by (auto simp add: is_digit_def)
  have nous: "CHR ''_'' \<notin> set ds"
    using assms(2) by (auto simp add: is_digit_def)
  have all: "\<forall>c \<in> set ds. digit_or_us c"
    using assms(2) by (simp add: digit_or_us_def)
  have tw: "takeWhile digit_or_us ds = ds" "dropWhile digit_or_us ds = []"
    using all by simp_all
  have lastds: "last ds \<noteq> CHR ''_''"
    using nous assms(1) last_in_set by metis
  have dw: "dropWhile is_space ds = ds"
    using nospace(1) assms(1) by (cases ds) simp_all
  show "py_int ds = Some (int (digits_value ds))"
    unfolding py_int_def Let_def dw
    using nonul assms(1) lastds nospace no_double_us [OF nous]
    by (simp add: tw)
  have dw': "dropWhile is_space (CHR ''-'' # ds) = CHR ''-'' # ds"
    by (simp add: is_space_def)
  show "py_int (CHR ''-'' # ds) = Some (- int (digits_value ds))"
    unfolding py_int_def Let_def dw'
    using nonul assms(1) lastds nospace no_double_us [OF nous]
    by (simp add: tw)
qed

lemma py_int_py_str: "py_int (py_str n) = Some n"
proof (cases "n < 0")
  case True
  then show ?thesis
    using py_int_digits(2) [of "str_nat (nat (- n))"]
    by (simp add: py_str_def str_nat_nonempty str_nat_digits digits_value_str_nat)
next
  case False
  then show ?thesis
    using py_int_digits(1) [of "str_nat (nat n)"]
    by (simp add: py_str_def str_nat_nonempty str_nat_digits digits_value_str_nat)
qed

lemma py_str_chars: "c \<in> set (py_str n) \<Longrightarrow> is_digit c \<or> c = CHR ''-''"
  by (auto simp add: py_str_def str_nat_digits split: if_splits)

lemma py_str_no_colon: "CHR '':'' \<notin> set (py_str n)"
  using py_str_chars [of "CHR '':''" n] by (auto simp add: is_digit_def)

lemma py_str_no_e: "CHR ''e'' \<notin> set (py_str n)"
  using py_str_chars [of "CHR ''e''" n] by (auto simp add: is_digit_def)

lemma py_str_nat_hd:
  "\<exists>c cs. py_str (int k) = c # cs \<and> is_digit c"
proof -
  obtain c cs where "str_nat k = c # cs"
    using str_nat_nonempty [of k] by (cases "str_nat k") auto
  moreover from this have "is_digit c"
    using str_nat_digits [of c k] by simp
  ultimately show ?thesis by (simp add: py_str_def)
qed

lemma decode_int_ok:
  "decode_int (pre @ CHR ''i'' # py_str n @ CHR ''e'' # rest) (int (length pre)) =
     Inr (BInt n, int (length pre + length (py_str n) + 2))"
proof -
  let ?x = "pre @ CHR ''i'' # py_str n @ CHR ''e'' # rest"
  let ?i = "int (length pre) + 1"
  have f: "py_find ?x CHR ''e'' ?i = ?i + int (length (py_str n))"
    by (rule py_find_at [where pre = "pre @ [CHR ''i'']" and rest = rest])
       (simp_all add: py_str_no_e)
  have sl: "py_slice ?x ?i (?i + int (length (py_str n))) = py_str n"
    by (rule py_slice_at [where pre = "pre @ [CHR ''i'']" and rest = "CHR ''e'' # rest"])
       simp_all
  show ?thesis
    unfolding decode_int_def Let_def f sl by (simp add: py_int_py_str)
qed

lemma decode_string_ok:
  "decode_string (pre @ py_str (int (length s)) @ CHR '':'' # s @ rest) (int (length pre)) =
     Inr (s, int (length pre + length (py_str (int (length s))) + 1 + length s))"
proof -
  let ?d = "py_str (int (length s))"
  let ?x = "pre @ ?d @ CHR '':'' # s @ rest"
  let ?i = "int (length pre)"
  let ?c = "?i + int (length ?d)"
  have f: "py_find ?x CHR '':'' ?i = ?c"
    by (rule py_find_at [where pre = pre and rest = "s @ rest"])
       (simp_all add: py_str_no_colon)
  have sl1: "py_slice ?x ?i ?c = ?d"
    by (rule py_slice_at [where pre = pre and rest = "CHR '':'' # s @ rest"]) simp_all
  have sl2: "py_slice ?x (?c + 1) (?c + 1 + int (length s)) = s"
    by (rule py_slice_at [where pre = "pre @ ?d @ [CHR '':'']" and rest = rest]) simp_all
  show ?thesis
    unfolding decode_string_def Let_def f sl1 py_int_py_str option.case sl2
    by simp
qed

lemma bencoding_hd: "\<exists>c cs. bencoding v = c # cs \<and> c \<noteq> CHR ''e''"
proof (cases v)
  case (BStr s)
  obtain c cs where "py_str (int (length s)) = c # cs" "is_digit c"
    using py_str_nat_hd by blast
  with BStr show ?thesis by (auto simp add: is_digit_def)
qed simp_all

lemma run_Decode:
  "run x (Decode i) =
     (if i \<ge> int (length x) then Some (Inl (ValueError UnexpectedEnd))
      else (case py_index x i of
              Inl e \<Rightarrow> Some (Inl e)
            | Inr c \<Rightarrow>
                if c = CHR ''d'' then run x (DictLoop (i + 1) [])
                else if c = CHR ''l'' then run x (ListLoop (i + 1) [])
                else if c = CHR ''i'' then Some (decode_int x i)
                else if is_digit c then
                  Some (case decode_string x i of
                          Inl e \<Rightarrow> Inl e
                        | Inr (s, j) \<Rightarrow> Inr (BStr s, j))
                else Some (Inl (ValueError (InvalidMarker c)))))"
  by (subst run.simps) simp

lemma run_ListLoop:
  "run x (ListLoop i acc) =
     (if i < int (length x) then
        (case py_index x i of
           Inl e \<Rightarrow> Some (Inl e)
         | Inr c \<Rightarrow>
             if c \<noteq> CHR ''e'' then
               Option.bind (run x (Decode i)) (\<lambda>r.
                 case r of
                   Inl e \<Rightarrow> Some (Inl e)
                 | Inr (item, j) \<Rightarrow> run x (ListLoop j (acc @ [item])))
             else Some (Inr (BList acc, i + 1)))
      else Some (Inr (BList acc, i + 1)))"
  by (subst run.simps) simp

lemma run_DictLoop:
  "run x (DictLoop i acc) =
     (if i < int (length x) then
        (case py_index x i of
           Inl e \<Rightarrow> Some (Inl e)
         | Inr c \<Rightarrow>
             if c \<noteq> CHR ''e'' then
               (case decode_string x i of
                  Inl e \<Rightarrow> Some (Inl e)
                | Inr (key, j) \<Rightarrow>
                    Option.bind (run x (Decode j)) (\<lambda>r.
                      case r of
                        Inl e \<Rightarrow> Some (Inl e)
                      | Inr (val, k) \<Rightarrow> run x (DictLoop k (dict_set acc key val))))
             else Some (Inr (BDict acc, i + 1)))
      else Some (Inr (BDict acc, i + 1)))"
  by (subst run.simps) simp

lemma dict_set_fresh: "k \<notin> set (map fst acc) \<Longrightarrow> dict_set acc k v = acc @ [(k, v)]"
  by (induction acc) auto

lemma list_loop_ok:
  assumes "\<And>v pre rest. v \<in> set vs \<Longrightarrow>
             run (pre @ bencoding v @ rest) (Decode (int (length pre))) =
               Some (Inr (v, int (length pre + length (bencoding v))))"
  shows "run (pre @ concat (map bencoding vs) @ CHR ''e'' # rest) (ListLoop (int (length pre)) acc) =
           Some (Inr (BList (acc @ vs),
                      int (length pre + length (concat (map bencoding vs)) + 1)))"
  using assms
proof (induction vs arbitrary: pre acc)
  case Nil
  have "py_index (pre @ CHR ''e'' # rest) (int (length pre)) = Inr CHR ''e''"
    by (rule py_index_at [where pre = pre and rest = rest]) simp_all
  then show ?case
    by (subst run_ListLoop) simp
next
  case (Cons v vs)
  obtain c cs where bv: "bencoding v = c # cs" and c: "c \<noteq> CHR ''e''"
    using bencoding_hd by blast
  define tail where "tail = concat (map bencoding vs) @ CHR ''e'' # rest"
  define x where "x = pre @ bencoding v @ tail"
  define i where "i = int (length pre)"
  define j where "j = int (length pre + length (bencoding v))"
  have len: "i < int (length x)"
    by (simp add: x_def i_def bv)
  have idx: "py_index x i = Inr c"
    by (rule py_index_at [where pre = pre and rest = "cs @ tail"])
       (simp_all add: x_def i_def bv)
  have d: "run x (Decode i) = Some (Inr (v, j))"
    unfolding x_def i_def j_def by (rule Cons.prems) simp
  have "run ((pre @ bencoding v) @ concat (map bencoding vs) @ CHR ''e'' # rest)
          (ListLoop (int (length (pre @ bencoding v))) (acc @ [v])) =
        Some (Inr (BList ((acc @ [v]) @ vs),
                   int (length (pre @ bencoding v) + length (concat (map bencoding vs)) + 1)))"
    by (rule Cons.IH) (rule Cons.prems, simp)
  then have l: "run x (ListLoop j (acc @ [v])) =
        Some (Inr (BList (acc @ v # vs), j + int (length (concat (map bencoding vs))) + 1))"
    by (simp add: x_def j_def tail_def)
  have "run x (ListLoop i acc) =
        Some (Inr (BList (acc @ v # vs), j + int (length (concat (map bencoding vs))) + 1))"
    by (subst run_ListLoop) (simp add: len idx c d l)
  then show ?case
    by (simp add: x_def i_def j_def tail_def)
qed

lemma dict_loop_ok:
  assumes "\<And>k v pre rest. (k, v) \<in> set kvs \<Longrightarrow>
             run (pre @ bencoding v @ rest) (Decode (int (length pre))) =
               Some (Inr (v, int (length pre + length (bencoding v))))"
    and "distinct (map fst acc @ map fst kvs)"
  shows "run (pre @ concat (map (\<lambda>(k, v). bencoding (BStr k) @ bencoding v) kvs) @ CHR ''e'' # rest)
           (DictLoop (int (length pre)) acc) =
           Some (Inr (BDict (acc @ kvs),
                      int (length pre
                           + length (concat (map (\<lambda>(k, v). bencoding (BStr k) @ bencoding v) kvs))
                           + 1)))"
  using assms
proof (induction kvs arbitrary: pre acc)
  case Nil
  have "py_index (pre @ CHR ''e'' # rest) (int (length pre)) = Inr CHR ''e''"
    by (rule py_index_at [where pre = pre and rest = rest]) simp_all
  then show ?case
    by (subst run_DictLoop) simp
next
  case (Cons kv kvs)
  obtain k v where kv: "kv = (k, v)" by (cases kv)
  obtain c cs where dk: "py_str (int (length k)) = c # cs" and cd: "is_digit c"
    using py_str_nat_hd by blast
  have c: "c \<noteq> CHR ''e''" using cd by (auto simp add: is_digit_def)
  define body where "body = concat (map (\<lambda>(k, v). bencoding (BStr k) @ bencoding v) kvs)"
  define tail where "tail = body @ CHR ''e'' # rest"
  define x where "x = pre @ py_str (int (length k)) @ CHR '':'' # k @ bencoding v @ tail"
  define i where "i = int (length pre)"
  define j where "j = int (length pre + length (py_str (int (length k))) + 1 + length k)"
  define m where "m = int (length (pre @ bencoding (BStr k)) + length (bencoding v))"
  have len: "i < int (length x)"
    by (simp add: x_def i_def dk)
  have idx: "py_index x i = Inr c"
    by (rule py_index_at [where pre = pre and rest = "cs @ CHR '':'' # k @ bencoding v @ tail"])
       (simp_all add: x_def i_def dk)
  have ds: "decode_string x i = Inr (k, j)"
    unfolding x_def i_def j_def by (rule decode_string_ok)
  have eqx: "(pre @ bencoding (BStr k)) @ bencoding v @ tail = x"
    by (simp add: x_def)
  have eqj: "int (length (pre @ bencoding (BStr k))) = j"
    by (simp add: j_def)
  have "run ((pre @ bencoding (BStr k)) @ bencoding v @ tail)
          (Decode (int (length (pre @ bencoding (BStr k))))) = Some (Inr (v, m))"
    unfolding m_def by (rule Cons.prems(1) [of k]) (simp add: kv)
  then have d: "run x (Decode j) = Some (Inr (v, m))"
    unfolding eqx eqj .
  have fresh: "k \<notin> set (map fst acc)"
    using Cons.prems(2) by (auto simp add: kv)
  have dist: "distinct (map fst (acc @ [(k, v)]) @ map fst kvs)"
    using Cons.prems(2) by (simp add: kv)
  have elems: "run (p @ bencoding v' @ r) (Decode (int (length p))) =
               Some (Inr (v', int (length p + length (bencoding v'))))"
    if "(k', v') \<in> set kvs" for k' v' p r
    using that Cons.prems(1) [of k' v' p r] by simp
  have eqx2: "(pre @ bencoding (BStr k) @ bencoding v) @ body @ CHR ''e'' # rest = x"
    by (simp add: x_def tail_def)
  have eqm: "int (length (pre @ bencoding (BStr k) @ bencoding v)) = m"
    by (simp add: m_def)
  have "run ((pre @ bencoding (BStr k) @ bencoding v) @ body @ CHR ''e'' # rest)
          (DictLoop (int (length (pre @ bencoding (BStr k) @ bencoding v))) (acc @ [(k, v)])) =
        Some (Inr (BDict ((acc @ [(k, v)]) @ kvs),
                   int (length (pre @ bencoding (BStr k) @ bencoding v) + length body + 1)))"
    unfolding body_def
    by (rule Cons.IH) (erule elems, rule dist)
  then have "run x (DictLoop m (acc @ [(k, v)])) =
        Some (Inr (BDict ((acc @ [(k, v)]) @ kvs),
                   int (length (pre @ bencoding (BStr k) @ bencoding v) + length body + 1)))"
    unfolding eqx2 eqm .
  then have l: "run x (DictLoop m (acc @ [(k, v)])) =
        Some (Inr (BDict (acc @ (k, v) # kvs), m + int (length body) + 1))"
    by (simp add: m_def)
  have "run x (DictLoop i acc) =
        Some (Inr (BDict (acc @ (k, v) # kvs), m + int (length body) + 1))"
    by (subst run_DictLoop) (simp add: len idx c ds d l dict_set_fresh [OF fresh])
  then show ?case
    by (simp add: x_def i_def m_def tail_def body_def kv)
qed

lemma run_bencoding:
  "distinct_keys v \<Longrightarrow>
   run (pre @ bencoding v @ rest) (Decode (int (length pre))) =
     Some (Inr (v, int (length pre + length (bencoding v))))"
proof (induction v arbitrary: pre rest)
  case (BInt n)
  define x where "x = pre @ CHR ''i'' # py_str n @ CHR ''e'' # rest"
  define i where "i = int (length pre)"
  have len: "\<not> int (length x) \<le> i" by (simp add: x_def i_def)
  have idx: "py_index x i = Inr CHR ''i''"
    by (rule py_index_at [where pre = pre and rest = "py_str n @ CHR ''e'' # rest"])
       (simp_all add: x_def i_def)
  have di: "decode_int x i = Inr (BInt n, int (length pre + length (py_str n) + 2))"
    unfolding x_def i_def by (rule decode_int_ok)
  have "run x (Decode i) = Some (Inr (BInt n, int (length pre + length (py_str n) + 2)))"
    by (subst run_Decode) (simp add: len idx di)
  then show ?case by (simp add: x_def i_def)
next
  case (BStr s)
  obtain c cs where dk: "py_str (int (length s)) = c # cs" and cd: "is_digit c"
    using py_str_nat_hd by blast
  have c: "c \<noteq> CHR ''d''" "c \<noteq> CHR ''l''" "c \<noteq> CHR ''i''"
    using cd by (auto simp add: is_digit_def)
  define x where "x = pre @ py_str (int (length s)) @ CHR '':'' # s @ rest"
  define i where "i = int (length pre)"
  have len: "\<not> int (length x) \<le> i" by (simp add: x_def i_def)
  have idx: "py_index x i = Inr c"
    by (rule py_index_at [where pre = pre and rest = "cs @ CHR '':'' # s @ rest"])
       (simp_all add: x_def i_def dk)
  have ds: "decode_string x i =
      Inr (s, int (length pre + length (py_str (int (length s))) + 1 + length s))"
    unfolding x_def i_def by (rule decode_string_ok)
  have "run x (Decode i) =
      Some (Inr (BStr s, int (length pre + length (py_str (int (length s))) + 1 + length s)))"
    by (subst run_Decode) (simp add: len idx c cd ds)
  then show ?case by (simp add: x_def i_def)
next
  case (BList vs)
  define body where "body = concat (map bencoding vs)"
  define x where "x = pre @ CHR ''l'' # body @ CHR ''e'' # rest"
  define i where "i = int (length pre)"
  have len: "\<not> int (length x) \<le> i" by (simp add: x_def i_def)
  have idx: "py_index x i = Inr CHR ''l''"
    by (rule py_index_at [where pre = pre and rest = "body @ CHR ''e'' # rest"])
       (simp_all add: x_def i_def)
  have elems: "run (p @ bencoding v @ r) (Decode (int (length p))) =
               Some (Inr (v, int (length p + length (bencoding v))))"
    if "v \<in> set vs" for v p r
    using that BList.IH [of v p r] BList.prems by simp
  have eqx: "(pre @ [CHR ''l'']) @ body @ CHR ''e'' # rest = x"
    by (simp add: x_def)
  have eqi: "int (length (pre @ [CHR ''l''])) = i + 1"
    by (simp add: i_def)
  have "run ((pre @ [CHR ''l'']) @ concat (map bencoding vs) @ CHR ''e'' # rest)
          (ListLoop (int (length (pre @ [CHR ''l'']))) []) =
        Some (Inr (BList ([] @ vs),
                   int (length (pre @ [CHR ''l'']) + length (concat (map bencoding vs)) + 1)))"
    by (rule list_loop_ok) (erule elems)
  then have l: "run x (ListLoop (i + 1) []) =
        Some (Inr (BList ([] @ vs), int (length (pre @ [CHR ''l'']) + length body + 1)))"
    unfolding body_def [symmetric] eqx eqi .
  have "run x (Decode i) =
        Some (Inr (BList vs, int (length (pre @ [CHR ''l'']) + length body + 1)))"
    by (subst run_Decode) (simp add: len idx l)
  then show ?case by (simp add: x_def i_def body_def)
next
  case (BDict kvs)
  define body where "body = concat (map (\<lambda>(k, v). bencoding (BStr k) @ bencoding v) kvs)"
  define x where "x = pre @ CHR ''d'' # body @ CHR ''e'' # rest"
  define i where "i = int (length pre)"
  have len: "\<not> int (length x) \<le> i" by (simp add: x_def i_def)
  have idx: "py_index x i = Inr CHR ''d''"
    by (rule py_index_at [where pre = pre and rest = "body @ CHR ''e'' # rest"])
       (simp_all add: x_def i_def)
  have elems: "run (p @ bencoding v @ r) (Decode (int (length p))) =
               Some (Inr (v, int (length p + length (bencoding v))))"
    if "(k, v) \<in> set kvs" for k v p r
  proof (rule BDict.IH)
    show "(k, v) \<in> set kvs" by (rule that)
    show "v \<in> Basic_BNFs.snds (k, v)" by simp
    show "distinct_keys v" using that BDict.prems by auto
  qed
  have dist: "distinct (map fst [] @ map fst kvs)"
    using BDict.prems by simp
  have eqx: "(pre @ [CHR ''d'']) @ body @ CHR ''e'' # rest = x"
    by (simp add: x_def)
  have eqi: "int (length (pre @ [CHR ''d''])) = i + 1"
    by (simp add: i_def)
  have "run ((pre @ [CHR ''d''])
               @ concat (map (\<lambda>(k, v). bencoding (BStr k) @ bencoding v) kvs) @ CHR ''e'' # rest)
          (DictLoop (int (length (pre @ [CHR ''d'']))) []) =
        Some (Inr (BDict ([] @ kvs),
                   int (length (pre @ [CHR ''d''])
                        + length (concat (map (\<lambda>(k, v). bencoding (BStr k) @ bencoding v) kvs))
                        + 1)))"
    by (rule dict_loop_ok) (erule elems, rule dist)
  then have l: "run x (DictLoop (i + 1) []) =
        Some (Inr (BDict ([] @ kvs), int (length (pre @ [CHR ''d'']) + length body + 1)))"
    unfolding body_def [symmetric] eqx eqi .
  have "run x (Decode i) =
        Some (Inr (BDict kvs, int (length (pre @ [CHR ''d'']) + length body + 1)))"
    by (subst run_Decode) (simp add: len idx l)
  then show ?case by (simp add: x_def i_def body_def)
qed

lemma decode_bencoding:
  "distinct_keys v \<Longrightarrow> decode_bencode (bencoding v @ rest) = Some (Some v)"
  using run_bencoding [of v "[]" rest] by (simp add: decode_bencode_def)

lemma canonical_distinct_keys: "canonical v \<Longrightarrow> distinct_keys v"
proof (induction v)
  case (BDict kvs)
  have "distinct (map fst kvs)"
    using BDict.prems by (simp add: strict_sorted_iff)
  moreover have "distinct_keys v" if "(k, v) \<in> set kvs" for k v
  proof (rule BDict.IH)
    show "(k, v) \<in> set kvs" by (rule that)
    show "v \<in> Basic_BNFs.snds (k, v)" by simp
    show "canonical v" using that BDict.prems by auto
  qed
  ultimately show ?case by auto
qed simp_all

lemma encode_canonical: "canonical v \<Longrightarrow> encode_bencode v = bencoding v"
proof (induction v)
  case (BInt n)
  show ?case by simp
next
  case (BStr s)
  show ?case by (simp add: encode_bytes_def)
next
  case (BList vs)
  have "map encode_bencode vs = map bencoding vs"
    using BList by (intro map_cong refl) simp
  then show ?case by (simp only: encode_bencode.simps bencoding.simps)
next
  case (BDict kvs)
  have sorted: "sort (map fst kvs) = map fst kvs"
    using BDict.prems by (simp add: strict_sorted_imp_sorted sorted_sort_id)
  have dist: "distinct (map fst kvs)"
    using BDict.prems by (simp add: strict_sorted_iff)
  have each: "encode_bytes (fst kv) @
                (case map_of kvs (fst kv) of Some v \<Rightarrow> encode_bencode v | None \<Rightarrow> [])
              = (case kv of (k, v) \<Rightarrow> bencoding (BStr k) @ bencoding v)"
    if "kv \<in> set kvs" for kv
  proof -
    obtain k v where kv: "kv = (k, v)" by (cases kv)
    have "map_of kvs k = Some v"
      using dist that kv by simp
    moreover have "encode_bencode v = bencoding v"
    proof (rule BDict.IH)
      show "(k, v) \<in> set kvs" using that kv by simp
      show "v \<in> Basic_BNFs.snds (k, v)" by simp
      show "canonical v" using that kv BDict.prems by auto
    qed
    ultimately show ?thesis by (simp add: kv encode_bytes_def)
  qed
  have "map (\<lambda>key. encode_bytes key @
                (case map_of kvs key of Some v \<Rightarrow> encode_bencode v | None \<Rightarrow> []))
            (map fst kvs)
        = map (\<lambda>(k, v). bencoding (BStr k) @ bencoding v) kvs"
    using each by (simp add: comp_def)
  then show ?case by (simp only: encode_bencode.simps bencoding.simps sorted)
qed

text \<open>
  C1.  For every canonical byte sequence, that is the \<open>bencoding\<close> of a value whose
  dictionaries have strictly ascending keys (integers are written by \<open>py_str\<close>, without
  leading zeros and without -0), the fallback decoder returns that value and the fallback
  encoder turns it back into the same bytes.
\<close>

theorem round_trip:
  "canonical v \<Longrightarrow>
   decode_bencode (bencoding v) = Some (Some v) \<and> encode_bencode v = bencoding v"
  using decode_bencoding [of v "[]"] canonical_distinct_keys [of v] encode_canonical [of v]
  by simp

text \<open>
  C7 (as amended).  Bytes that follow a complete top-level value are ignored: whatever
  follows the encoding of a value (its dictionaries in any key order, without repeated
  keys), the decoder returns that value.
\<close>

theorem trailing_bytes_ignored:
  "distinct_keys v \<Longrightarrow> decode_bencode (bencoding v @ rest) = Some (Some v)"
  by (rule decode_bencoding)

lemma encode_dict_order:
  assumes "distinct (map fst a)" and "distinct (map fst b)" and "set a = set b"
  shows "encode_bencode (BDict a) = encode_bencode (BDict b)"
proof -
  have m: "map_of a = map_of b"
    using assms by (simp add: map_of_inject_set)
  have "set (map fst a) = set (map fst b)"
    using assms(3) by simp
  then have "sort (map fst a) = sort (map fst b)"
    using assms(1,2) by (intro sorted_distinct_set_unique) simp_all
  with m show ?thesis by simp
qed

lemma sample_canonical: "canonical sample_value"
  unfolding sample_value_def by code_simp

lemma sample_bencoding: "bencoding sample_value = ''d1:ai-12e1:bl3:xyzdeee''"
  by (simp add: sample_value_def encode_eval)

theorem round_trip_witness:
  "canonical sample_value
   \<and> decode_bencode ''d1:ai-12e1:bl3:xyzdeee'' = Some (Some sample_value)
   \<and> encode_bencode sample_value = ''d1:ai-12e1:bl3:xyzdeee''"
  using round_trip [OF sample_canonical] sample_canonical
  by (simp add: sample_bencoding)

lemma unsorted_distinct: "distinct_keys unsorted_value"
  by (simp add: unsorted_value_def)

lemma unsorted_bencoding: "bencoding unsorted_value = ''d1:bi2e1:ai1ee''"
  by (simp add: unsorted_value_def encode_eval)

theorem trailing_bytes_ignored_witness:
  "distinct_keys unsorted_value
   \<and> decode_bencode ''d1:bi2e1:ai1eexyz'' = Some (Some unsorted_value)"
  using trailing_bytes_ignored [OF unsorted_distinct, of "''xyz''"] unsorted_distinct
  by (simp add: unsorted_bencoding)

section \<open>Key order and the digest\<close>

text \<open>
  Every dictionary that the decoder builds has distinct keys, at every depth: the
  invariant of the three loops of \<open>run\<close>.
\<close>

lemma dict_set_keys:
  "set (map fst (dict_set acc k v)) = insert k (set (map fst acc))"
  by (induction acc) auto

lemma dict_set_distinct:
  "distinct (map fst acc) \<Longrightarrow> distinct (map fst (dict_set acc k v))"
proof (induction acc)
  case Nil
  show ?case by simp
next
  case (Cons p acc)
  then show ?case
    using dict_set_keys [of acc k v] by auto
qed

lemma dict_set_values:
  "(k', v') \<in> set (dict_set acc k v) \<Longrightarrow> (k', v') \<in> set acc \<or> v' = v"
  by (induction acc) (auto split: if_splits)

lemma dict_set_distinct_keys:
  assumes "distinct_keys (BDict acc)" and "distinct_keys v"
  shows "distinct_keys (BDict (dict_set acc k v))"
  using assms dict_set_distinct [of acc k v] dict_set_values [of _ _ acc k v]
  by fastforce

lemma decode_int_shape: "decode_int x i = Inr (v, j) \<Longrightarrow> distinct_keys v"
  by (auto simp add: decode_int_def Let_def split: if_splits option.splits)

lemma run_distinct_keys:
  assumes "run x t = Some r"
    and "case t of Decode i \<Rightarrow> True
         | ListLoop i acc \<Rightarrow> distinct_keys (BList acc)
         | DictLoop i acc \<Rightarrow> distinct_keys (BDict acc)"
  shows "case r of Inl e \<Rightarrow> True | Inr (v, j) \<Rightarrow> distinct_keys v"
proof -
  let ?INV = "\<lambda>t. case t of Decode i \<Rightarrow> True
         | ListLoop i acc \<Rightarrow> distinct_keys (BList acc)
         | DictLoop i acc \<Rightarrow> distinct_keys (BDict acc)"
  let ?OK = "\<lambda>r. case r of Inl e \<Rightarrow> True | Inr (v, j) \<Rightarrow> distinct_keys v"
  have "(case (x, t) of (x, t) \<Rightarrow> \<lambda>r. ?INV t \<longrightarrow> ?OK r) r"
  proof (rule run.raw_induct [where xa = "(x, t)" and y = r])
    show "(case (x, t) of (x, t) \<Rightarrow> run x t) = Some r"
      using assms(1) by simp
  next
    fix run' :: "string \<Rightarrow> task \<Rightarrow> (exn + bvalue \<times> int) option" and x t r
    assume IH: "\<And>x t r. run' x t = Some r \<Longrightarrow> ?INV t \<longrightarrow> ?OK r"
    assume step: "(case t of
        Decode i \<Rightarrow>
          if i \<ge> int (length x) then Some (Inl (ValueError UnexpectedEnd))
          else (case py_index x i of
                  Inl e \<Rightarrow> Some (Inl e)
                | Inr c \<Rightarrow>
                    if c = CHR ''d'' then run' x (DictLoop (i + 1) [])
                    else if c = CHR ''l'' then run' x (ListLoop (i + 1) [])
                    else if c = CHR ''i'' then Some (decode_int x i)
                    else if is_digit c then
                      Some (case decode_string x i of
                              Inl e \<Rightarrow> Inl e
                            | Inr (s, j) \<Rightarrow> Inr (BStr s, j))
                    else Some (Inl (ValueError (InvalidMarker c))))
      | ListLoop i acc \<Rightarrow>
          if i < int (length x) then
            (case py_index x i of
               Inl e \<Rightarrow> Some (Inl e)
             | Inr c \<Rightarrow>
                 if c \<noteq> CHR ''e'' then
                   Option.bind (run' x (Decode i)) (\<lambda>r.
                     case r of
                       Inl e \<Rightarrow> Some (Inl e)
                     | Inr (item, j) \<Rightarrow> run' x (ListLoop j (acc @ [item])))
                 else Some (Inr (BList acc, i + 1)))
          else Some (Inr (BList acc, i + 1))
      | DictLoop i acc \<Rightarrow>
          if i < int (length x) then
            (case py_index x i of
               Inl e \<Rightarrow> Some (Inl e)
             | Inr c \<Rightarrow>
                 if c \<noteq> CHR ''e'' then
                   (case decode_string x i of
                      Inl e \<Rightarrow> Some (Inl e)
                    | Inr (key, j) \<Rightarrow>
                        Option.bind (run' x (Decode j)) (\<lambda>r.
                          case r of
                            Inl e \<Rightarrow> Some (Inl e)
                          | Inr (val, k) \<Rightarrow> run' x (DictLoop k (dict_set acc key val))))
                 else Some (Inr (BDict acc, i + 1)))
          else Some (Inr (BDict acc, i + 1))) = Some r"
    show "?INV t \<longrightarrow> ?OK r"
    proof (cases t)
      case (Decode i)
      have a: "?OK r'" if "run' x (DictLoop (i + 1) []) = Some r'" for r'
        using IH [OF that] by simp
      have b: "?OK r'" if "run' x (ListLoop (i + 1) []) = Some r'" for r'
        using IH [OF that] by simp
      from step Decode a b show ?thesis
        by (auto split: if_splits sum.splits prod.splits dest: decode_int_shape)
    next
      case (ListLoop i acc)
      show ?thesis
      proof
        assume inv: "?INV t"
        have "?OK r" if d: "run' x (Decode i) = Some (Inr (item, j))"
          and l: "run' x (ListLoop j (acc @ [item])) = Some r" for item j
        proof -
          from IH [OF d] have "distinct_keys item" by simp
          with inv ListLoop have "?INV (ListLoop j (acc @ [item]))" by simp
          with IH [OF l] show ?thesis by blast
        qed
        with step ListLoop inv show "?OK r"
          by (auto split: if_splits sum.splits prod.splits Option.bind_splits)
      qed
    next
      case (DictLoop i acc)
      show ?thesis
      proof
        assume inv: "?INV t"
        have "?OK r" if d: "run' x (Decode j) = Some (Inr (val, k))"
          and l: "run' x (DictLoop k (dict_set acc key val)) = Some r" for key j val k
        proof -
          from IH [OF d] have "distinct_keys val" by simp
          with inv DictLoop have "?INV (DictLoop k (dict_set acc key val))"
            using dict_set_distinct_keys [of acc val key] by simp
          with IH [OF l] show ?thesis by blast
        qed
        with step DictLoop inv show "?OK r"
          by (auto split: if_splits sum.splits prod.splits Option.bind_splits)
      qed
    qed
  qed
  with assms(2) show ?thesis by simp
qed

lemma decode_distinct_keys:
  "decode_bencode data = Some (Some tv) \<Longrightarrow> distinct_keys tv"
proof -
  assume a: "decode_bencode data = Some (Some tv)"
  then obtain r where r: "run data (Decode 0) = Some r"
    by (auto simp add: decode_bencode_def)
  with a obtain j where "r = Inr (tv, j)"
    by (cases r) (auto simp add: decode_bencode_def)
  with run_distinct_keys [OF r] show ?thesis by simp
qed

lemma py_getitem_distinct_keys:
  "py_getitem tv k = Inr v \<Longrightarrow> distinct_keys tv \<Longrightarrow> distinct_keys v"
  by (cases tv) (auto split: option.splits dest: map_of_SomeD)

lemma load_info_hash:
  assumes "load_torrent H None fs s = Some (True, st')"
  shows "\<exists>info'. info st' = Some info' \<and> distinct_keys info'
           \<and> info_hash st' = Some (H (encode_bencode info'))"
proof -
  from assms obtain data tv info' enc where
    d: "codec_decode None data = Some (Inr (Some tv))" and
    g: "py_getitem tv ''info'' = Inr info'" and
    c: "codec_encode None info' = Inr enc" and
    ex: "extract_file_info (s\<lparr>torrent_data := Some tv, info := Some info',
             info_hash := Some (H enc)\<rparr>) = Inr st'"
    unfolding load_torrent_True by blast
  from d have d': "decode_bencode data = Some (Some tv)"
    by (auto simp add: codec_decode_def)
  from c have enc: "enc = encode_bencode info'"
    by (simp add: codec_encode_def)
  have "distinct_keys info'"
    using py_getitem_distinct_keys [OF g decode_distinct_keys [OF d']] .
  with extract_file_info_fields [OF ex] enc show ?thesis by simp
qed

lemma py_eq_list_all2: "py_eq_list xs ys = list_all2 py_eq xs ys"
proof (induction xs arbitrary: ys)
  case Nil
  show ?case by (cases ys) simp_all
next
  case (Cons x xs)
  then show ?case by (cases ys) simp_all
qed

lemma py_eq_items_lookup:
  "py_eq_items a b \<Longrightarrow> (k, x) \<in> set a \<Longrightarrow> \<exists>w. map_of b k = Some w \<and> py_eq x w"
  by (induction a) (auto split: option.splits)

lemma map_eq_if_all2:
  "list_all2 (\<lambda>x y. f x = f y) xs ys \<Longrightarrow> map f xs = map f ys"
  by (induction rule: list_all2_induct) simp_all

lemma encode_py_eq:
  "distinct_keys u \<Longrightarrow> distinct_keys v \<Longrightarrow> py_eq u v \<Longrightarrow>
   encode_bencode u = encode_bencode v"
proof (induction u arbitrary: v)
  case (BInt n)
  then show ?case by (cases v) simp_all
next
  case (BStr s)
  then show ?case by (cases v) simp_all
next
  case (BList xs)
  from BList.prems(3) obtain ys where v: "v = BList ys"
    by (cases v) simp_all
  have "list_all2 py_eq xs ys"
    using BList.prems(3) v by (simp add: py_eq_list_all2)
  then have "list_all2 (\<lambda>x y. encode_bencode x = encode_bencode y) xs ys"
  proof (rule list.rel_mono_strong)
    fix x y
    assume "x \<in> set xs" and "y \<in> set ys" and "py_eq x y"
    then show "encode_bencode x = encode_bencode y"
      using BList.IH [of x y] BList.prems(1,2) v by simp
  qed
  then have "map encode_bencode xs = map encode_bencode ys"
    by (rule map_eq_if_all2)
  then show ?case by (simp only: v encode_bencode.simps)
next
  case (BDict a)
  from BDict.prems(3) obtain b where v: "v = BDict b"
    by (cases v) simp_all
  have len: "length a = length b" and items: "py_eq_items a b"
    using BDict.prems(3) v by simp_all
  have da: "distinct (map fst a)" and db: "distinct (map fst b)"
    using BDict.prems(1,2) v by simp_all
  have sub: "set (map fst a) \<subseteq> set (map fst b)"
  proof
    fix k
    assume "k \<in> set (map fst a)"
    then obtain x where "(k, x) \<in> set a" by auto
    with py_eq_items_lookup [OF items] obtain w where "map_of b k = Some w" by blast
    then show "k \<in> set (map fst b)" by (rule map_of_in_keys)
  qed
  have ca: "card (set (map fst a)) = length a"
    using distinct_card [OF da] by simp
  have cb: "card (set (map fst b)) = length b"
    using distinct_card [OF db] by simp
  have "card (set (map fst a)) = card (set (map fst b))"
    using ca cb len by simp
  with sub have keys: "set (map fst a) = set (map fst b)"
    by (simp add: card_subset_eq)
  then have sorted: "sort (map fst a) = sort (map fst b)"
    using da db by (intro sorted_distinct_set_unique) simp_all
  have each: "encode_bytes k @ (case map_of a k of Some x \<Rightarrow> encode_bencode x | None \<Rightarrow> [])
            = encode_bytes k @ (case map_of b k of Some x \<Rightarrow> encode_bencode x | None \<Rightarrow> [])"
    if "k \<in> set (sort (map fst b))" for k
  proof -
    from that keys have "k \<in> set (map fst a)" by simp
    then obtain x where x: "(k, x) \<in> set a" by auto
    with da have ma: "map_of a k = Some x" by simp
    from py_eq_items_lookup [OF items x] obtain w where
      mb: "map_of b k = Some w" and e: "py_eq x w" by blast
    have "(k, w) \<in> set b" using mb by (rule map_of_SomeD)
    then have dw: "distinct_keys w" using BDict.prems(2) v by auto
    have dx: "distinct_keys x" using x BDict.prems(1) by auto
    have "encode_bencode x = encode_bencode w"
    proof (rule BDict.IH)
      show "(k, x) \<in> set a" by (rule x)
      show "x \<in> Basic_BNFs.snds (k, x)" by simp
      show "distinct_keys x" by (rule dx)
      show "distinct_keys w" by (rule dw)
      show "py_eq x w" by (rule e)
    qed
    with ma mb show ?thesis by simp
  qed
  have "map (\<lambda>key. encode_bytes key @
                (case map_of a key of Some x \<Rightarrow> encode_bencode x | None \<Rightarrow> []))
            (sort (map fst a))
      = map (\<lambda>key. encode_bytes key @
                (case map_of b key of Some x \<Rightarrow> encode_bencode x | None \<Rightarrow> []))
            (sort (map fst b))"
    unfolding sorted using each by (intro map_cong refl) simp
  then show ?case by (simp only: v encode_bencode.simps)
qed

lemma py_eq_refl: "distinct_keys v \<Longrightarrow> py_eq v v"
proof (induction v)
  case (BList xs)
  then have "list_all2 py_eq xs xs"
    by (simp add: list_all2_same)
  then show ?case by (simp add: py_eq_list_all2)
next
  case (BDict a)
  have d: "distinct (map fst a)" using BDict.prems by simp
  have elems: "py_eq x x" if "(k, x) \<in> set a" for k x
  proof (rule BDict.IH)
    show "(k, x) \<in> set a" by (rule that)
    show "x \<in> Basic_BNFs.snds (k, x)" by simp
    show "distinct_keys x" using that BDict.prems by auto
  qed
  have "py_eq_items c a" if "set c \<subseteq> set a" for c
    using that
  proof (induction c)
    case Nil
    show ?case by simp
  next
    case (Cons p c)
    obtain k x where p: "p = (k, x)" by (cases p)
    with Cons.prems have m: "(k, x) \<in> set a" by simp
    with d have "map_of a k = Some x" by simp
    with elems [OF m] Cons show ?case by (simp add: p)
  qed
  then show ?case by simp
qed simp_all

lemma set_eq_py_eq:
  assumes "distinct_keys (BDict a)" and "distinct_keys (BDict b)" and "set a = set b"
  shows "py_eq (BDict a) (BDict b)"
proof -
  have da: "distinct (map fst a)" and db: "distinct (map fst b)"
    using assms(1,2) by simp_all
  have ca: "card (set (map fst a)) = length a"
    using distinct_card [OF da] by simp
  have cb: "card (set (map fst b)) = length b"
    using distinct_card [OF db] by simp
  have "set (map fst a) = set (map fst b)"
    using assms(3) by simp
  with ca cb have len: "length a = length b" by simp
  have "py_eq_items c b" if "set c \<subseteq> set b" for c
    using that
  proof (induction c)
    case Nil
    show ?case by simp
  next
    case (Cons p c)
    obtain k x where p: "p = (k, x)" by (cases p)
    with Cons.prems have m: "(k, x) \<in> set b" by simp
    with db have "map_of b k = Some x" by simp
    moreover have "py_eq x x"
      using m assms(2) by (intro py_eq_refl) auto
    ultimately show ?case using Cons by (simp add: p)
  qed
  with assms(3) len show ?thesis by simp
qed

text \<open>
  C2 (as amended).  Two values that are equal as Python values, in particular two
  dictionaries with the same keys and equal values whatever their insertion orders at any
  depth, have the same encoding under \<open>_encode_bencode\<close> (a key occurs once in a
  dictionary, as in every Python \<open>dict\<close>); so have two dictionaries with the same set of
  key/value pairs.  Consequently, when the fallback codec is in use, two successful loads
  whose \<open>info\<close> values are equal in that sense compute the same \<open>info_hash\<close>, the digest
  \<open>H\<close> of the re-encoded \<open>info\<close> value.  With \<open>bencodepy\<close> the hash is the
  digest of whatever \<open>bencodepy.encode\<close> returns for \<open>info\<close>.
\<close>

theorem order_independent_digest:
  "(distinct_keys u \<and> distinct_keys v \<and> py_eq u v \<longrightarrow>
      encode_bencode u = encode_bencode v)
   \<and> (distinct (map fst a) \<and> distinct (map fst b) \<and> set a = set b \<longrightarrow>
      encode_bencode (BDict a) = encode_bencode (BDict b))
   \<and> (load_torrent H None fs1 s1 = Some (True, st1)
       \<and> load_torrent H None fs2 s2 = Some (True, st2)
       \<and> info st1 = Some u \<and> info st2 = Some v \<and> py_eq u v \<longrightarrow>
      info_hash st1 = info_hash st2)
   \<and> (load_torrent H (Some l) fs1 s1 = Some (True, st1) \<longrightarrow>
      (\<exists>info' enc. info st1 = Some info' \<and> lib_encode l info' = Inr enc
         \<and> info_hash st1 = Some (H enc)))"
proof (intro conjI impI)
  assume "distinct_keys u \<and> distinct_keys v \<and> py_eq u v"
  then show "encode_bencode u = encode_bencode v"
    by (blast intro: encode_py_eq)
next
  assume "distinct (map fst a) \<and> distinct (map fst b) \<and> set a = set b"
  then show "encode_bencode (BDict a) = encode_bencode (BDict b)"
    by (blast intro: encode_dict_order)
next
  assume h: "load_torrent H None fs1 s1 = Some (True, st1)
       \<and> load_torrent H None fs2 s2 = Some (True, st2)
       \<and> info st1 = Some u \<and> info st2 = Some v \<and> py_eq u v"
  from h load_info_hash [of H fs1 s1 st1]
  have 1: "distinct_keys u" "info_hash st1 = Some (H (encode_bencode u))"
    by auto
  from h load_info_hash [of H fs2 s2 st2]
  have 2: "distinct_keys v" "info_hash st2 = Some (H (encode_bencode v))"
    by auto
  have "encode_bencode u = encode_bencode v"
    using 1(1) 2(1) h by (intro encode_py_eq) simp_all
  with 1(2) 2(2) show "info_hash st1 = info_hash st2" by simp
next
  assume "load_torrent H (Some l) fs1 s1 = Some (True, st1)"
  then obtain tv info' enc where
    c: "codec_encode (Some l) info' = Inr enc" and
    ex: "extract_file_info (s1\<lparr>torrent_data := Some tv, info := Some info',
             info_hash := Some (H enc)\<rparr>) = Inr st1"
    unfolding load_torrent_True by blast
  from c have "lib_encode l info' = Inr enc"
    by (simp add: codec_encode_def)
  with extract_file_info_fields [OF ex]
  show "\<exists>info' enc. info st1 = Some info' \<and> lib_encode l info' = Inr enc
         \<and> info_hash st1 = Some (H enc)"
    by simp
qed

lemma decode_nested_ab_file:
  "decode_bencode nested_ab_file = Some (Some (BDict [(''info'', BDict nested_ab)]))"
  unfolding nested_ab_file_def nested_ab_def by code_simp

lemma decode_nested_ba_file:
  "decode_bencode nested_ba_file = Some (Some (BDict [(''info'', BDict nested_ba)]))"
  unfolding nested_ba_file_def nested_ba_def by code_simp

lemma encode_nested:
  "encode_bencode (BDict nested_ab) = ''d1:ad1:xi1e1:yi2ee1:bi2ee''"
  "encode_bencode (BDict nested_ba) = ''d1:ad1:xi1e1:yi2ee1:bi2ee''"
  by (simp_all add: nested_ab_def nested_ba_def encode_eval)

lemma extract_without_keys:
  "''files'' \<notin> set (map fst kvs) \<Longrightarrow> map_of kvs ''name'' = None \<Longrightarrow>
   map_of kvs ''length'' = None \<Longrightarrow> map_of kvs ''piece length'' = None \<Longrightarrow>
   extract_file_info
     ((init [])\<lparr>torrent_data := Some (BDict [(''info'', BDict kvs)]),
                info := Some (BDict kvs), info_hash := Some digest\<rparr>) =
     Inr (loaded kvs digest)"
  by (simp add: extract_single get_default_def decode_utf8_ignore_def loaded_def init_def)

lemma load_nested_ab_file:
  "load_torrent plain_digest None (fs_with nested_ab_file) (init []) =
     Some (True, loaded nested_ab ''d1:ad1:xi1e1:yi2ee1:bi2ee'')"
proof -
  have "extract_file_info
     ((init [])\<lparr>torrent_data := Some (BDict [(''info'', BDict nested_ab)]),
                info := Some (BDict nested_ab),
                info_hash := Some ''d1:ad1:xi1e1:yi2ee1:bi2ee''\<rparr>) =
     Inr (loaded nested_ab ''d1:ad1:xi1e1:yi2ee1:bi2ee'')"
    by (rule extract_without_keys) (simp_all add: nested_ab_def)
  then show ?thesis
    unfolding load_torrent_True
    by (simp add: os_path_exists_def fs_with_def init_def codec_decode_def codec_encode_def
          plain_digest_def decode_nested_ab_file encode_nested del: encode_bencode.simps)
qed

lemma load_nested_ba_file:
  "load_torrent plain_digest None (fs_with nested_ba_file) (init []) =
     Some (True, loaded nested_ba ''d1:ad1:xi1e1:yi2ee1:bi2ee'')"
proof -
  have "extract_file_info
     ((init [])\<lparr>torrent_data := Some (BDict [(''info'', BDict nested_ba)]),
                info := Some (BDict nested_ba),
                info_hash := Some ''d1:ad1:xi1e1:yi2ee1:bi2ee''\<rparr>) =
     Inr (loaded nested_ba ''d1:ad1:xi1e1:yi2ee1:bi2ee'')"
    by (rule extract_without_keys) (simp_all add: nested_ba_def)
  then show ?thesis
    unfolding load_torrent_True
    by (simp add: os_path_exists_def fs_with_def init_def codec_decode_def codec_encode_def
          plain_digest_def decode_nested_ba_file encode_nested del: encode_bencode.simps)
qed

lemma nested_py_eq: "py_eq (BDict nested_ab) (BDict nested_ba)"
  by (simp add: nested_ab_def nested_ba_def)

theorem order_independent_digest_witness:
  "py_eq (BDict nested_ab) (BDict nested_ba)
   \<and> encode_bencode (BDict nested_ab) = encode_bencode (BDict nested_ba)
   \<and> load_torrent plain_digest None (fs_with nested_ab_file) (init []) =
       Some (True, loaded nested_ab ''d1:ad1:xi1e1:yi2ee1:bi2ee'')
   \<and> load_torrent plain_digest None (fs_with nested_ba_file) (init []) =
       Some (True, loaded nested_ba ''d1:ad1:xi1e1:yi2ee1:bi2ee'')
   \<and> info_hash (loaded nested_ab ''d1:ad1:xi1e1:yi2ee1:bi2ee'') =
       info_hash (loaded nested_ba ''d1:ad1:xi1e1:yi2ee1:bi2ee'')"
proof -
  have d: "distinct_keys (BDict nested_ab)" "distinct_keys (BDict nested_ba)"
    by (simp_all add: nested_ab_def nested_ba_def)
  from order_independent_digest
    [of "BDict nested_ab" "BDict nested_ba" "[]" "[]"
        plain_digest "fs_with nested_ab_file" "init []"
        "loaded nested_ab ''d1:ad1:xi1e1:yi2ee1:bi2ee''"
        "fs_with nested_ba_file" "init []"
        "loaded nested_ba ''d1:ad1:xi1e1:yi2ee1:bi2ee''"]
    d nested_py_eq load_nested_ab_file load_nested_ba_file
  show ?thesis by (simp add: loaded_def del: encode_bencode.simps py_eq.simps distinct_keys.simps)
qed

lemma decode_ab_file:
  "decode_bencode ab_file = Some (Some (BDict [(''info'', BDict [(''a'', BInt 1), (''b'', BInt 2)])]))"
  unfolding ab_file_def by code_simp

lemma decode_ba_file:
  "decode_bencode ba_file = Some (Some (BDict [(''info'', BDict [(''b'', BInt 2), (''a'', BInt 1)])]))"
  unfolding ba_file_def by code_simp

lemma load_ab_file_with_library:
  "load_torrent plain_digest (Some insertion_order_lib) (fs_with ab_file) (init []) =
     Some (True, loaded [(''a'', BInt 1), (''b'', BInt 2)] ''d1:ai1e1:bi2ee'')"
proof -
  have "extract_file_info
     ((init [])\<lparr>torrent_data := Some (BDict [(''info'', BDict [(''a'', BInt 1), (''b'', BInt 2)])]),
                info := Some (BDict [(''a'', BInt 1), (''b'', BInt 2)]),
                info_hash := Some ''d1:ai1e1:bi2ee''\<rparr>) =
     Inr (loaded [(''a'', BInt 1), (''b'', BInt 2)] ''d1:ai1e1:bi2ee'')"
    by (rule extract_without_keys) simp_all
  then show ?thesis
    unfolding load_torrent_True
    by (simp add: os_path_exists_def fs_with_def init_def codec_decode_def codec_encode_def
          plain_digest_def insertion_order_lib_def decode_ab_file encode_eval)
qed

lemma load_ba_file_with_library:
  "load_torrent plain_digest (Some insertion_order_lib) (fs_with ba_file) (init []) =
     Some (True, loaded [(''b'', BInt 2), (''a'', BInt 1)] ''d1:bi2e1:ai1ee'')"
proof -
  have "extract_file_info
     ((init [])\<lparr>torrent_data := Some (BDict [(''info'', BDict [(''b'', BInt 2), (''a'', BInt 1)])]),
                info := Some (BDict [(''b'', BInt 2), (''a'', BInt 1)]),
                info_hash := Some ''d1:bi2e1:ai1ee''\<rparr>) =
     Inr (loaded [(''b'', BInt 2), (''a'', BInt 1)] ''d1:bi2e1:ai1ee'')"
    by (rule extract_without_keys) simp_all
  then show ?thesis
    unfolding load_torrent_True
    by (simp add: os_path_exists_def fs_with_def init_def codec_decode_def codec_encode_def
          plain_digest_def insertion_order_lib_def decode_ba_file encode_eval)
qed

text \<open>
  C2 as stated fails when \<open>bencodepy\<close> is installed and its encoder keeps the insertion
  order of a dictionary: the files \<open>d4:infod1:ai1e1:bi2eee\<close> and
  \<open>d4:infod1:bi2e1:ai1eee\<close> hold the same key/value pairs under \<open>info\<close>, and the two
  loads hash different bytes.
\<close>

theorem library_digest_counterexample:
  "load_torrent plain_digest (Some insertion_order_lib) (fs_with ab_file) (init []) =
     Some (True, loaded [(''a'', BInt 1), (''b'', BInt 2)] ''d1:ai1e1:bi2ee'')
   \<and> load_torrent plain_digest (Some insertion_order_lib) (fs_with ba_file) (init []) =
       Some (True, loaded [(''b'', BInt 2), (''a'', BInt 1)] ''d1:bi2e1:ai1ee'')
   \<and> set [(''a'', BInt 1), (''b'', BInt 2)] = set [(''b'', BInt 2), (''a'', BInt 1)]
   \<and> info_hash (loaded [(''a'', BInt 1), (''b'', BInt 2)] ''d1:ai1e1:bi2ee'')
       \<noteq> info_hash (loaded [(''b'', BInt 2), (''a'', BInt 1)] ''d1:bi2e1:ai1ee'')"
proof -
  have "set [(''a'', BInt 1), (''b'', BInt 2)] = set [(''b'', BInt 2), (''a'', BInt 1)]"
    by auto
  then show ?thesis
    using load_ab_file_with_library load_ba_file_with_library
    by (simp add: loaded_def)
qed

section \<open>A dictionary loop that never ends\<close>

text \<open>
  In \<open>d1:ai1e-6:\<close> the second key of the dictionary has the length prefix \<open>-6\<close>:
  \<open>decode_string\<close> returns the empty key and the cursor 4, the integer at 4 is decoded
  again and the cursor is back at 7, the start of the same key.  The loop of
  \<open>decode_dict\<close> repeats this forever, so \<open>_decode_bencode\<close>, and with it
  \<open>load_torrent\<close>, does not return on this input.
\<close>

lemma looping_steps:
  "py_index looping_input 0 = Inr CHR ''d''"
  "py_index looping_input 1 = Inr CHR ''1''"
  "py_index looping_input 4 = Inr CHR ''i''"
  "py_index looping_input 7 = Inr CHR ''-''"
  "decode_string looping_input 1 = Inr (''a'', 4)"
  "decode_int looping_input 4 = Inr (BInt 1, 7)"
  "decode_string looping_input 7 = Inr ([], 4)"
  "int (length looping_input) = 10"
  unfolding looping_input_def by code_simp+

lemma looping_never_returns:
  assumes "run x t = Some r" and "x = looping_input"
  shows "(\<forall>acc. t \<noteq> DictLoop 7 acc) \<and> (t = Decode 4 \<longrightarrow> r = Inr (BInt 1, 7))"
proof -
  let ?P = "\<lambda>x t r. x = looping_input \<longrightarrow>
              (\<forall>acc. t \<noteq> DictLoop 7 acc) \<and> (t = Decode 4 \<longrightarrow> r = Inr (BInt 1, 7))"
  have "(case (x, t) of (x, t) \<Rightarrow> ?P x t) r"
  proof (rule run.raw_induct [where xa = "(x, t)" and y = r])
    show "(case (x, t) of (x, t) \<Rightarrow> run x t) = Some r"
      using assms(1) by simp
  next
    fix run' :: "string \<Rightarrow> task \<Rightarrow> (exn + bvalue \<times> int) option" and x t r
    assume IH: "\<And>x t r. run' x t = Some r \<Longrightarrow> ?P x t r"
    assume step: "(case t of
        Decode i \<Rightarrow>
          if i \<ge> int (length x) then Some (Inl (ValueError UnexpectedEnd))
          else (case py_index x i of
                  Inl e \<Rightarrow> Some (Inl e)
                | Inr c \<Rightarrow>
                    if c = CHR ''d'' then run' x (DictLoop (i + 1) [])
                    else if c = CHR ''l'' then run' x (ListLoop (i + 1) [])
                    else if c = CHR ''i'' then Some (decode_int x i)
                    else if is_digit c then
                      Some (case decode_string x i of
                              Inl e \<Rightarrow> Inl e
                            | Inr (s, j) \<Rightarrow> Inr (BStr s, j))
                    else Some (Inl (ValueError (InvalidMarker c))))
      | ListLoop i acc \<Rightarrow>
          if i < int (length x) then
            (case py_index x i of
               Inl e \<Rightarrow> Some (Inl e)
             | Inr c \<Rightarrow>
                 if c \<noteq> CHR ''e'' then
                   Option.bind (run' x (Decode i)) (\<lambda>r.
                     case r of
                       Inl e \<Rightarrow> Some (Inl e)
                     | Inr (item, j) \<Rightarrow> run' x (ListLoop j (acc @ [item])))
                 else Some (Inr (BList acc, i + 1)))
          else Some (Inr (BList acc, i + 1))
      | DictLoop i acc \<Rightarrow>
          if i < int (length x) then
            (case py_index x i of
               Inl e \<Rightarrow> Some (Inl e)
             | Inr c \<Rightarrow>
                 if c \<noteq> CHR ''e'' then
                   (case decode_string x i of
                      Inl e \<Rightarrow> Some (Inl e)
                    | Inr (key, j) \<Rightarrow>
                        Option.bind (run' x (Decode j)) (\<lambda>r.
                          case r of
                            Inl e \<Rightarrow> Some (Inl e)
                          | Inr (val, k) \<Rightarrow> run' x (DictLoop k (dict_set acc key val))))
                 else Some (Inr (BDict acc, i + 1)))
          else Some (Inr (BDict acc, i + 1))) = Some r"
    show "?P x t r"
    proof
      assume x: "x = looping_input"
      have four: "r = Inr (BInt 1, 7)" if "t = Decode 4"
        using step that by (simp add: x looping_steps)
      have seven: False if t: "t = DictLoop 7 acc" for acc
      proof -
        from step t have "\<exists>r1. run' looping_input (Decode 4) = Some r1 \<and>
            (case r1 of Inl e \<Rightarrow> Some (Inl e)
               | Inr (val, k) \<Rightarrow>
                   run' looping_input (DictLoop k (dict_set acc [] val))) = Some r"
          by (auto simp add: x looping_steps split: Option.bind_splits)
        then obtain r1 where
          d: "run' looping_input (Decode 4) = Some r1" and
          k: "(case r1 of Inl e \<Rightarrow> Some (Inl e)
               | Inr (val, k) \<Rightarrow>
                   run' looping_input (DictLoop k (dict_set acc [] val))) = Some r"
          by blast
        from IH [OF d] have "r1 = Inr (BInt 1, 7)" by simp
        with k have "run' looping_input (DictLoop 7 (dict_set acc [] (BInt 1))) = Some r"
          by simp
        from IH [OF this] show False by simp
      qed
      from four seven show "(\<forall>acc. t \<noteq> DictLoop 7 acc) \<and> (t = Decode 4 \<longrightarrow> r = Inr (BInt 1, 7))"
        by blast
    qed
  qed
  with assms(2) show ?thesis by simp
qed

lemma decode_bencode_loops: "decode_bencode looping_input = None"
proof -
  have loop: "run looping_input (DictLoop 7 acc) = None" for acc
    using looping_never_returns [of looping_input "DictLoop 7 acc"]
    by (cases "run looping_input (DictLoop 7 acc)") auto
  have four: "run looping_input (Decode 4) = Some (Inr (BInt 1, 7))"
    by (subst run_Decode) (simp add: looping_steps)
  have one: "run looping_input (DictLoop 1 []) = None"
    by (subst run_DictLoop) (simp add: looping_steps four loop)
  have "run looping_input (Decode 0) = None"
    by (subst run_Decode) (simp add: looping_steps one)
  then show ?thesis by (simp add: decode_bencode_def)
qed

lemma load_torrent_loops:
  "load_torrent H None (fs_with looping_input) (init p) = None"
  by (simp add: load_torrent_def load_body_def codec_decode_def codec_encode_def os_path_exists_def fs_with_def
        decode_bencode_loops)

end
